theory Spec2Isabelle
  imports Complex_Main "HOL-Library.Word" "HOL-Library.Sublist"
begin

unbundle bit_operations_syntax

section \<open>JavaScript strings and numbers\<close>

text \<open>
  A JavaScript string is a sequence of 16-bit code units; \<open>charCodeAt\<close> reads one of
  them, \<open>slice(0, n)\<close> keeps the first \<open>n\<close>, and \<open>trim\<close> strips the ECMAScript
  white space and line terminator code units from both ends.
\<close>

type_synonym jschar = "16 word"
type_synonym jsstring = "jschar list"

definition js :: "string \<Rightarrow> jsstring" where
  "js s = map (\<lambda>c. of_nat (of_char c)) s"

definition isWhiteSpace :: "jschar \<Rightarrow> bool" where
  "isWhiteSpace c =
     (c \<in> set [0x09, 0x0A, 0x0B, 0x0C, 0x0D, 0x20, 0xA0, 0x1680, 0x2028, 0x2029,
                0x202F, 0x205F, 0x3000, 0xFEFF]
      \<or> (0x2000 \<le> c \<and> c \<le> 0x200A))"

definition trim :: "jsstring \<Rightarrow> jsstring" where
  "trim s = rev (dropWhile isWhiteSpace (rev (dropWhile isWhiteSpace s)))"

definition slice0 :: "nat \<Rightarrow> jsstring \<Rightarrow> jsstring" where
  "slice0 n s = take n s"

text \<open>\<open>Number.prototype.toString(radix)\<close> on an integer: digits \<open>0-9a-z\<close>, a leading
  minus sign for a negative number.\<close>

definition digitChar :: "int \<Rightarrow> jschar" where
  "digitChar d = (if d < 10 then word_of_int (48 + d) else word_of_int (87 + d))"

function digitsOf :: "int \<Rightarrow> int \<Rightarrow> jsstring" where
  "digitsOf b n =
     (if b < 2 \<or> n < b then [digitChar n]
      else digitsOf b (n div b) @ [digitChar (n mod b)])"
  by pat_completeness auto
termination
  by (relation "measure (\<lambda>(b, n). nat n)")
     (auto intro!: int_div_less_self simp: pos_imp_zdiv_nonneg_iff)

declare digitsOf.simps [simp del]

definition toStringRadix :: "int \<Rightarrow> int \<Rightarrow> jsstring" where
  "toStringRadix b n =
     (if n < 0 then 0x2D # digitsOf b (- n) else digitsOf b n)"

text \<open>\<open>ToInt32\<close>, the conversion every bitwise operator of JavaScript applies to its
  operands: the value modulo \<open>2^32\<close>, read as two's complement.\<close>

definition toInt32 :: "int \<Rightarrow> int" where
  "toInt32 x = (x + 2 ^ 31) mod 2 ^ 32 - 2 ^ 31"

section \<open>The stable hasher\<close>

text \<open>
  \<open>hashString\<close>: for each code unit, \<open>hash = ((hash << 5) - hash) + char\<close> followed by
  \<open>hash = hash & hash\<close>. The shift wraps to 32 bits, the subtraction and the addition are
  exact Number arithmetic (all values stay far below \<open>2^53\<close>), and the final \<open>&\<close>
  wraps again.
\<close>

fun hashLoop :: "int \<Rightarrow> jsstring \<Rightarrow> int" where
  "hashLoop hash [] = hash"
| "hashLoop hash (c # cs) =
     hashLoop (toInt32 ((toInt32 (toInt32 hash * 2 ^ 5) - hash) + uint c)) cs"

definition hashString :: "jsstring \<Rightarrow> jsstring" where
  "hashString str = toStringRadix 16 (hashLoop 0 str)"

text \<open>The hash as the specification words it: 32-bit wrap-around arithmetic,
  multiply by 31 and add the code unit, per character.\<close>

fun rollingHash31 :: "32 word \<Rightarrow> jsstring \<Rightarrow> 32 word" where
  "rollingHash31 h [] = h"
| "rollingHash31 h (c # cs) = rollingHash31 (h * 31 + ucast c) cs"

definition hexOfRollingHash :: "jsstring \<Rightarrow> jsstring" where
  "hexOfRollingHash str = toStringRadix 16 (sint (rollingHash31 0 str))"

section \<open>Elements of the host page\<close>

text \<open>
  The selector engine, the attributes and the text of an element belong to the browser.
  An element is modelled by what the scraper reads from it: its text, class name and
  \<open>data-message-id\<close> / \<open>data-id\<close> attributes, the first descendant each selector
  matches (\<open>querySelector\<close>), and the text that remains in the detached clone of
  \<open>getCleanText\<close> after hidden and navigation nodes are removed and code is fenced.
\<close>

datatype selector =
    ClassContains string
  | ClassIs string
  | Tag string
  | PlatformSelector string

datatype role = User | Assistant

record codeBlock =
  codeId :: jsstring
  language :: jsstring
  codeContent :: jsstring

datatype element = Element
  (textContent: jsstring)
  (className: jsstring)
  (dataMessageId: "jsstring option")
  (dataId: "jsstring option")
  (innerHTML: jsstring)
  (cleanedTextContent: jsstring)
  (matches: "(selector \<times> element) list")
  (roleOf: role)
  (timestampOf: "jsstring option")
  (codeBlocksOf: "codeBlock list")
  (artifactsOf: "jsstring list")

record platform =
  chatContainer :: "selector option"
  chatMessage :: "selector option"
  messageContent :: "selector option"
  loadMoreButton :: "selector option"

definition querySelector :: "element \<Rightarrow> selector \<Rightarrow> element option" where
  "querySelector el sel = map_of (matches el) sel"

text \<open>\<open>a || ''\<close> on an attribute value: \<open>null\<close> and the empty string are both falsy.\<close>

definition orEmpty :: "jsstring option \<Rightarrow> jsstring" where
  "orEmpty a = (case a of None \<Rightarrow> [] | Some s \<Rightarrow> s)"

definition getCleanText :: "element \<Rightarrow> jsstring" where
  "getCleanText el = trim (cleanedTextContent el)"

definition contentSelectors :: "selector list" where
  "contentSelectors =
     [ClassContains ''message-content'', ClassContains ''message-text'',
      ClassContains ''content'', ClassContains ''text-content'',
      ClassContains ''markdown'', ClassContains ''prose'', Tag ''p'', ClassIs ''text'']"

fun firstCleanText :: "element \<Rightarrow> selector list \<Rightarrow> jsstring option" where
  "firstCleanText el [] = None"
| "firstCleanText el (sel # sels) =
     (case querySelector el sel of
        None \<Rightarrow> firstCleanText el sels
      | Some contentEl \<Rightarrow>
          (let text = getCleanText contentEl
           in if length text > 0 then Some text else firstCleanText el sels))"

definition platformContentEl :: "element \<Rightarrow> platform \<Rightarrow> element option" where
  "platformContentEl el p =
     (case messageContent p of None \<Rightarrow> None | Some sel \<Rightarrow> querySelector el sel)"

definition extractContent :: "element \<Rightarrow> platform \<Rightarrow> jsstring" where
  "extractContent el p =
     (case platformContentEl el p of
        Some contentEl \<Rightarrow> getCleanText contentEl
      | None \<Rightarrow>
          (case firstCleanText el contentSelectors of
             Some text \<Rightarrow> text
           | None \<Rightarrow> getCleanText el))"

text \<open>\<open>hashElement\<close> takes either an element or a plain object carrying only
  \<open>textContent\<close> (the form \<open>processMessages\<close> passes).\<close>

datatype hashable = DomElement element | PlainObject jsstring

fun hashElement :: "hashable \<Rightarrow> jsstring" where
  "hashElement (PlainObject t) = hashString (trim (slice0 300 t))"
| "hashElement (DomElement el) =
     (let content = trim (slice0 300 (textContent el));
          cn = className el;
          dataIdAttr = (if orEmpty (dataMessageId el) \<noteq> [] then orEmpty (dataMessageId el)
                        else orEmpty (dataId el))
      in if dataIdAttr \<noteq> [] then js ''id_'' @ dataIdAttr
         else hashString (content @ (if cn \<noteq> [] then slice0 50 cn else [])))"

section \<open>Messages and the capture session\<close>

record message =
  msgId :: jsstring
  msgRole :: role
  content :: jsstring
  timestamp :: "jsstring option"
  codeBlocks :: "codeBlock list"
  artifacts :: "jsstring list"
  order :: nat
  rawHtml :: "jsstring option"

record session =
  capturedMessages :: "message list"
  seenMessageHashes :: "jsstring set"
  isCapturing :: bool
  scrollAttempts :: nat

definition extractMessage :: "element \<Rightarrow> platform \<Rightarrow> nat \<Rightarrow> message" where
  "extractMessage el p index =
     \<lparr> msgId = js ''msg_'' @ hashElement (DomElement el) @ js ''_''
                 @ toStringRadix 10 (int index),
       msgRole = roleOf el,
       content = extractContent el p,
       timestamp = timestampOf el,
       codeBlocks = codeBlocksOf el,
       artifacts = artifactsOf el,
       order = index,
       rawHtml = Some (slice0 500 (innerHTML el)) \<rparr>"

text \<open>The body of the \<open>forEach\<close> in \<open>captureVisibleMessages\<close>: the fingerprint enters the
  seen-set first, the message is appended only when its content is not blank.\<close>

definition captureElement :: "platform \<Rightarrow> session \<Rightarrow> element \<Rightarrow> session" where
  "captureElement p s el =
     (let hash = hashElement (DomElement el)
      in if hash \<notin> seenMessageHashes s then
           (let s1 = s\<lparr>seenMessageHashes := insert hash (seenMessageHashes s)\<rparr>;
                msg = extractMessage el p (length (capturedMessages s1))
            in if content msg \<noteq> [] \<and> length (trim (content msg)) > 0
               then s1\<lparr>capturedMessages := capturedMessages s1 @ [msg]\<rparr>
               else s1)
         else s)"

definition captureVisibleMessages :: "platform \<Rightarrow> element list \<Rightarrow> session \<Rightarrow> session" where
  "captureVisibleMessages p els s = foldl (captureElement p) s els"

text \<open>\<open>processMessages\<close>: a stable sort by \<open>order\<close>, the content-level deduplication
  loop, and the renumbering.\<close>

definition contentHash :: "message \<Rightarrow> jsstring" where
  "contentHash msg = hashElement (PlainObject (content msg))"

fun uniqueLoop :: "message list \<Rightarrow> jsstring set \<Rightarrow> message list \<Rightarrow> message list" where
  "uniqueLoop [] contentHashes unique = unique"
| "uniqueLoop (msg # rest) contentHashes unique =
     (if contentHash msg \<notin> contentHashes \<and> length (trim (content msg)) > 0
      then uniqueLoop rest (insert (contentHash msg) contentHashes) (unique @ [msg])
      else uniqueLoop rest contentHashes unique)"

definition renumber :: "message list \<Rightarrow> message list" where
  "renumber unique =
     map (\<lambda>(i, msg). msg\<lparr>order := i, rawHtml := None\<rparr>) (enumerate 0 unique)"

definition processMessages :: "session \<Rightarrow> message list" where
  "processMessages s =
     renumber (uniqueLoop (sort_key order (capturedMessages s)) {} [])"

section \<open>Progress events\<close>

datatype phase = Initializing | Scrolling | Extracting | Finalizing | Complete

record progressEvent =
  phase :: phase
  progress :: real
  count :: "nat option"

section \<open>Phase 1: scrolling to the absolute top\<close>

text \<open>
  What the host page answers in one iteration of the loop of \<open>scrollToAbsoluteTop\<close>:
  whether \<open>tryClickLoadMore\<close> clicked something, the scroll height and scroll position
  read after the wait, whether \<open>hasLoadMoreButton\<close> finds a button, and whether
  \<open>stop()\<close> ran during the wait. Numbers are JavaScript doubles; they are modelled as
  reals, and the division by zero that JavaScript answers with \<open>Infinity\<close> is written out
  where it can happen.
\<close>

record topObs =
  loadMoreClicked :: bool
  topScrollHeight :: nat
  topScrollTop :: real
  loadMoreVisible :: bool
  topStopRequested :: bool

text \<open>
  What the host page answers in one iteration of the loop of \<open>scrollAndCaptureAll\<close>:
  the message elements \<open>findMessageElements\<close> returns after the scroll step, the scroll
  metrics read for the progress report and the bottom test, the elements found by the
  two extra passes made at the bottom, and whether \<open>stop()\<close> ran during the waits.
\<close>

record sweepObs =
  visible :: "element list"
  sweepScrollHeight :: nat
  sweepScrollTop :: real
  sweepClientHeight :: nat
  visibleAtBottom :: "element list"
  visibleAfterNudge :: "element list"
  sweepStopRequested :: bool

text \<open>A host page, as one run of \<open>captureFullHistory\<close> observes it.\<close>

record page =
  containerFound :: bool
  stopBeforeTop :: bool
  topPage :: "nat \<Rightarrow> topObs"
  stopBeforeSweep :: bool
  startClientHeight :: nat
  initiallyVisible :: "element list"
  sweepPage :: "nat \<Rightarrow> sweepObs"

definition maxScrollAttempts :: nat where
  "maxScrollAttempts = 300"

definition topProgress :: "nat \<Rightarrow> real" where
  "topProgress iteration = min 45 (2 + (real iteration / real maxScrollAttempts) * 43)"

text \<open>The local variables of the loop, with the session and the progress events
  emitted so far.\<close>

record topState =
  iteration :: nat
  previousScrollHeight :: int
  topStableCount :: nat
  topSess :: session
  topEvents :: "progressEvent list"

text \<open>One execution of the loop body; the flag says that a \<open>break\<close> was taken. The
  first \<open>break\<close> (five stable iterations) precedes the update of
  \<open>previousScrollHeight\<close>, the second (three stable iterations and no load-more
  button) follows it.\<close>

definition topBody :: "topObs \<Rightarrow> topState \<Rightarrow> bool \<times> topState" where
  "topBody ob st =
     (let iteration' = iteration st + 1;
          s' = (topSess st)\<lparr>scrollAttempts := iteration',
                 isCapturing := isCapturing (topSess st) \<and> \<not> topStopRequested ob\<rparr>;
          currentScrollHeight = int (topScrollHeight ob);
          events' = (if iteration' mod 10 = 0
                     then topEvents st @
                            [\<lparr>phase = Scrolling, progress = topProgress iteration',
                              count = None\<rparr>]
                     else topEvents st);
          heightStable = (currentScrollHeight = previousScrollHeight st);
          positionAtTop = (topScrollTop ob \<le> 5);
          stable = (heightStable \<and> positionAtTop \<and> \<not> loadMoreClicked ob);
          stableCount' = (if stable then topStableCount st + 1 else 0);
          st1 = st\<lparr>iteration := iteration', topStableCount := stableCount',
                    topSess := s', topEvents := events'\<rparr>
      in if stable \<and> stableCount' \<ge> 5 then (True, st1)
         else (let st2 = st1\<lparr>previousScrollHeight := currentScrollHeight\<rparr>
               in if stableCount' \<ge> 3 \<and> \<not> loadMoreVisible ob then (True, st2)
                  else (False, st2)))"

function topLoop :: "(nat \<Rightarrow> topObs) \<Rightarrow> topState \<Rightarrow> topState" where
  "topLoop pg st =
     (if iteration st < maxScrollAttempts \<and> isCapturing (topSess st) then
        (case topBody (pg (iteration st + 1)) st of
           (True, st') \<Rightarrow> st'
         | (False, st') \<Rightarrow> topLoop pg st')
      else st)"
  by pat_completeness auto
termination
  by (relation "measure (\<lambda>(pg, st). maxScrollAttempts - iteration st)")
     (auto simp: topBody_def Let_def split: if_splits)

declare topLoop.simps [simp del]

definition scrollToAbsoluteTop :: "page \<Rightarrow> session \<Rightarrow> progressEvent list \<Rightarrow> topState" where
  "scrollToAbsoluteTop pg s events =
     topLoop (topPage pg)
       \<lparr>iteration = 0, previousScrollHeight = - 1, topStableCount = 0,
         topSess = s\<lparr>isCapturing := isCapturing s \<and> \<not> stopBeforeTop pg\<rparr>,
         topEvents = events\<rparr>"

section \<open>Phase 2: sweeping down and capturing\<close>

record sweepState =
  sess :: session
  totalScrolled :: real
  previousMessageCount :: nat
  sweepStableCount :: nat
  emitted :: "progressEvent list"

datatype loopExit = ReachedBottom | NoGrowthAtBottom | Cancelled

definition maxStable :: nat where
  "maxStable = 8"

text \<open>\<open>50 + Math.min(45, (totalScrolled / scrollHeight) * 45)\<close>. \<open>totalScrolled\<close> is
  positive whenever this is evaluated, so a zero scroll height gives \<open>Infinity\<close> and the
  minimum is 45.\<close>

definition sweepProgress :: "real \<Rightarrow> nat \<Rightarrow> real" where
  "sweepProgress scrolled h =
     50 + (if h = 0 then 45 else min 45 ((scrolled / real h) * 45))"

definition atBottomOf :: "sweepObs \<Rightarrow> bool" where
  "atBottomOf ob =
     (sweepScrollTop ob + real (sweepClientHeight ob) \<ge> real (sweepScrollHeight ob) - 20)"

text \<open>One execution of the loop body: \<open>Some\<close> exit when a \<open>break\<close> is taken.\<close>

definition sweepBody ::
  "platform \<Rightarrow> real \<Rightarrow> sweepObs \<Rightarrow> sweepState \<Rightarrow> loopExit option \<times> sweepState" where
  "sweepBody p scrollStep ob st =
     (let scrolled = totalScrolled st + scrollStep;
          s1 = (sess st)\<lparr>isCapturing := isCapturing (sess st) \<and> \<not> sweepStopRequested ob\<rparr>;
          s2 = captureVisibleMessages p (visible ob) s1;
          ev = emitted st @
                 [\<lparr>phase = Extracting, progress = sweepProgress scrolled (sweepScrollHeight ob),
                   count = Some (length (capturedMessages s2))\<rparr>];
          atBottom = atBottomOf ob
      in if atBottom then
           (let s3 = captureVisibleMessages p (visibleAtBottom ob) s2;
                s4 = captureVisibleMessages p (visibleAfterNudge ob) s3
            in (Some ReachedBottom, st\<lparr>sess := s4, totalScrolled := scrolled, emitted := ev\<rparr>))
         else if length (capturedMessages s2) = previousMessageCount st then
           (if sweepStableCount st + 1 \<ge> maxStable \<and> atBottom
            then (Some NoGrowthAtBottom,
                  st\<lparr>sess := s2, totalScrolled := scrolled,
                     sweepStableCount := sweepStableCount st + 1, emitted := ev\<rparr>)
            else (None,
                  st\<lparr>sess := s2, totalScrolled := scrolled,
                     previousMessageCount := length (capturedMessages s2),
                     sweepStableCount := sweepStableCount st + 1, emitted := ev\<rparr>))
         else (None,
               st\<lparr>sess := s2, totalScrolled := scrolled,
                  previousMessageCount := length (capturedMessages s2),
                  sweepStableCount := 0, emitted := ev\<rparr>))"

text \<open>The \<open>while (this.isCapturing)\<close> loop has no bound of its own. The first argument
  bounds the number of iterations observed: the result \<open>(None, st)\<close> says that the loop
  is still running in state \<open>st\<close> after that many iterations.\<close>

fun sweepLoop ::
  "nat \<Rightarrow> platform \<Rightarrow> real \<Rightarrow> (nat \<Rightarrow> sweepObs) \<Rightarrow> nat \<Rightarrow> sweepState
     \<Rightarrow> loopExit option \<times> sweepState" where
  "sweepLoop 0 p scrollStep pg k st = (None, st)"
| "sweepLoop (Suc fuel) p scrollStep pg k st =
     (if \<not> isCapturing (sess st) then (Some Cancelled, st)
      else (case sweepBody p scrollStep (pg k) st of
              (Some r, st') \<Rightarrow> (Some r, st')
            | (None, st') \<Rightarrow> sweepLoop fuel p scrollStep pg (Suc k) st'))"

definition scrollStepOf :: "nat \<Rightarrow> real" where
  "scrollStepOf clientHeight = max 200 (real clientHeight * (6 / 10))"

definition scrollAndCaptureAll ::
  "nat \<Rightarrow> platform \<Rightarrow> page \<Rightarrow> session \<Rightarrow> progressEvent list
     \<Rightarrow> loopExit option \<times> sweepState" where
  "scrollAndCaptureAll fuel p pg s events =
     (let s0 = s\<lparr>isCapturing := isCapturing s \<and> \<not> stopBeforeSweep pg\<rparr>;
          s1 = captureVisibleMessages p (initiallyVisible pg) s0
      in sweepLoop fuel p (scrollStepOf (startClientHeight pg)) (sweepPage pg) 0
           \<lparr>sess = s1, totalScrolled = 0, previousMessageCount = 0,
             sweepStableCount = 0, emitted = events\<rparr>)"

section \<open>The whole capture\<close>

datatype error = ContainerNotFound

record captureResult =
  finalMessages :: "message list"
  finalSession :: session
  finalEvents :: "progressEvent list"

definition event :: "phase \<Rightarrow> real \<Rightarrow> nat option \<Rightarrow> progressEvent" where
  "event ph pr c = \<lparr>phase = ph, progress = pr, count = c\<rparr>"

definition freshSession :: session where
  "freshSession =
     \<lparr>capturedMessages = [], seenMessageHashes = {}, isCapturing = True, scrollAttempts = 0\<rparr>"

definition captureFullHistory :: "nat \<Rightarrow> platform \<Rightarrow> page \<Rightarrow> (error + captureResult) option" where
  "captureFullHistory fuel p pg =
     (if \<not> containerFound pg then Some (Inl ContainerNotFound)
      else
        (let reached = scrollToAbsoluteTop pg freshSession
                     [event Initializing 0 None, event Scrolling 2 None]
         in case scrollAndCaptureAll fuel p pg (topSess reached)
                   (topEvents reached @ [event Extracting 50 None]) of
              (None, st) \<Rightarrow> None
            | (Some r, st) \<Rightarrow>
                (let final = processMessages (sess st)
                 in Some (Inr \<lparr>finalMessages = final,
                               finalSession = (sess st)\<lparr>isCapturing := False\<rparr>,
                               finalEvents = emitted st @
                                 [event Finalizing 95 None,
                                  event Complete 100 (Some (length final))]\<rparr>))))"

section \<open>Vocabulary for the properties\<close>

text \<open>The fingerprint of an element, the messages that a list of elements yields when
  each is extracted at its position, and a run of several capture passes.\<close>

definition fingerprint :: "element \<Rightarrow> jsstring" where
  "fingerprint el = hashElement (DomElement el)"

definition capturedFrom :: "platform \<Rightarrow> element list \<Rightarrow> message list" where
  "capturedFrom p es = map (\<lambda>(i, e). extractMessage e p i) (enumerate 0 es)"

definition blank :: "jsstring \<Rightarrow> bool" where
  "blank t = (trim t = [])"

text \<open>The accumulator holds exactly the messages of the elements \<open>es\<close>, in that
  order: their fingerprints are pairwise different and in the seen-set, and none of
  them has blank content.\<close>

definition accumulated :: "platform \<Rightarrow> session \<Rightarrow> element list \<Rightarrow> bool" where
  "accumulated p s es =
     (capturedMessages s = capturedFrom p es
      \<and> distinct (map fingerprint es)
      \<and> fingerprint ` set es \<subseteq> seenMessageHashes s
      \<and> list_all (\<lambda>e. \<not> blank (extractContent e p)) es)"

text \<open>A phase-1 observation of a page at rest: nothing was clicked, the scroll height
  is \<open>h\<close>, the position is within 5 pixels of the top, no load-more button is
  visible, and nobody asked to stop.\<close>

definition quiet :: "topObs \<Rightarrow> nat \<Rightarrow> bool" where
  "quiet ob h =
     (\<not> loadMoreClicked ob \<and> topScrollHeight ob = h \<and> topScrollTop ob \<le> 5
      \<and> \<not> loadMoreVisible ob \<and> \<not> topStopRequested ob)"

text \<open>The progress values emitted so far in phase 1 are ascending and lie between 2
  and the value the current iteration would report.\<close>

definition topEventsOk :: "topState \<Rightarrow> bool" where
  "topEventsOk st =
     (sorted (map progress (topEvents st))
      \<and> list_all (\<lambda>e. 2 \<le> progress e \<and> progress e \<le> topProgress (iteration st))
           (topEvents st))"

definition capturePasses :: "platform \<Rightarrow> element list list \<Rightarrow> session \<Rightarrow> session" where
  "capturePasses p passes s = foldl (\<lambda>s els. captureVisibleMessages p els s) s passes"

text \<open>The first element of each key value, in order of first appearance: what a
  deduplication by that key should keep.\<close>

function firstOccurrences :: "('a \<Rightarrow> 'k) \<Rightarrow> 'a list \<Rightarrow> 'a list" where
  "firstOccurrences key [] = []"
| "firstOccurrences key (x # xs) =
     x # firstOccurrences key (filter (\<lambda>y. key y \<noteq> key x) xs)"
  by pat_completeness auto
termination
  by (relation "measure (\<lambda>(key, xs). length xs)") (auto simp: less_Suc_eq_le)

text \<open>The content hash that the message extracted from an element gets in
  \<open>processMessages\<close>.\<close>

definition contentKey :: "platform \<Rightarrow> element \<Rightarrow> jsstring" where
  "contentKey p el = hashElement (PlainObject (extractContent el p))"

text \<open>The element lists that \<open>findMessageElements\<close> hands to the capture passes of one
  run, in the order of the passes: the pass before the loop of \<open>scrollAndCaptureAll\<close>,
  then one pass per iteration for as long as \<open>isCapturing\<close> holds at the loop test, and
  the two extra passes of the iteration that meets the bottom. The flag with which the
  sweep starts is the one phase 1 leaves behind.\<close>

fun sweepShown :: "nat \<Rightarrow> (nat \<Rightarrow> sweepObs) \<Rightarrow> nat \<Rightarrow> bool \<Rightarrow> element list list" where
  "sweepShown 0 pg k capturing = []"
| "sweepShown (Suc fuel) pg k capturing =
     (if \<not> capturing then []
      else if atBottomOf (pg k)
           then [visible (pg k), visibleAtBottom (pg k), visibleAfterNudge (pg k)]
           else visible (pg k)
                  # sweepShown fuel pg (Suc k) (capturing \<and> \<not> sweepStopRequested (pg k)))"

definition shownPasses :: "nat \<Rightarrow> page \<Rightarrow> element list list" where
  "shownPasses fuel pg =
     initiallyVisible pg
       # sweepShown fuel (sweepPage pg) 0
           (isCapturing (topSess (scrollToAbsoluteTop pg freshSession
                                    [event Initializing 0 None, event Scrolling 2 None]))
            \<and> \<not> stopBeforeSweep pg)"

text \<open>Two sessions that hold the same accumulated messages and the same seen-set;
  they may differ in the cancellation flag and the attempt counter.\<close>

definition sameMessages :: "session \<Rightarrow> session \<Rightarrow> bool" where
  "sameMessages s s' =
     (capturedMessages s = capturedMessages s' \<and> seenMessageHashes s = seenMessageHashes s')"

section \<open>Sample pages\<close>

text \<open>Concrete elements and pages on which the properties below are exercised. A
  plain element has no matching descendants; its cleaned text is its own text.\<close>

definition plainElement :: "jsstring \<Rightarrow> jsstring \<Rightarrow> jsstring option \<Rightarrow> element" where
  "plainElement text cls ident =
     Element text cls ident None [] text [] Assistant None [] []"

text \<open>The text \<open>" hi "\<close> with class \<open>"m"\<close>, and a text of one space followed by 300
  letters \<open>a\<close>.\<close>

definition sampleElement :: element where
  "sampleElement = plainElement [0x20, 0x68, 0x69, 0x20] [0x6D] None"

definition paddedElement :: element where
  "paddedElement = plainElement (0x20 # replicate 300 0x61) [] None"

text \<open>A small page. Elements \<open>a\<close> and \<open>c\<close> carry different ids and the same text
  \<open>"hello"\<close>; element \<open>b\<close> has only white space; the last element has no id and the
  text \<open>"bye"\<close>. The scroll height stays at 1000, the viewport is 500 high, and the
  bottom is reached in the second iteration of the sweep.\<close>

definition elemA :: element where
  "elemA = plainElement [0x68, 0x65, 0x6C, 0x6C, 0x6F] [] (Some [0x61])"

definition elemB :: element where
  "elemB = plainElement [0x20, 0x0A] [] (Some [0x62])"

definition elemBLater :: element where
  "elemBLater = plainElement [0x68, 0x69] [] (Some [0x62])"

definition elemC :: element where
  "elemC = plainElement [0x68, 0x65, 0x6C, 0x6C, 0x6F] [] (Some [0x63])"

definition elemBye :: element where
  "elemBye = plainElement [0x62, 0x79, 0x65] [0x6D] None"

definition noSelectors :: platform where
  "noSelectors =
     \<lparr>chatContainer = None, chatMessage = None, messageContent = None,
       loadMoreButton = None\<rparr>"

definition quietTop :: "nat \<Rightarrow> topObs" where
  "quietTop k =
     \<lparr>loadMoreClicked = False, topScrollHeight = 1000, topScrollTop = 0,
       loadMoreVisible = False, topStopRequested = False\<rparr>"

definition smallSweep :: "nat \<Rightarrow> sweepObs" where
  "smallSweep k =
     \<lparr>visible = (if k = 0 then [elemB, elemC] else [elemC, elemBye]),
       sweepScrollHeight = 1000,
       sweepScrollTop = min (300 * (real k + 1)) 500,
       sweepClientHeight = 500,
       visibleAtBottom = [elemC, elemBye],
       visibleAfterNudge = [elemA, elemBye],
       sweepStopRequested = False\<rparr>"

definition smallPage :: page where
  "smallPage =
     \<lparr>containerFound = True, stopBeforeTop = False, topPage = quietTop,
       stopBeforeSweep = False, startClientHeight = 500,
       initiallyVisible = [elemA, elemB], sweepPage = smallSweep\<rparr>"

text \<open>What the capture of the small page returns: the two messages \<open>"hello"\<close> and
  \<open>"bye"\<close>, the session left behind, and the progress events.\<close>

definition helloMessage :: message where
  "helloMessage =
     \<lparr>msgId = [109, 115, 103, 95, 105, 100, 95, 97, 95, 48], msgRole = Assistant,
       content = [104, 101, 108, 108, 111], timestamp = None, codeBlocks = [],
       artifacts = [], order = 0, rawHtml = Some []\<rparr>"

definition helloAgainMessage :: message where
  "helloAgainMessage =
     \<lparr>msgId = [109, 115, 103, 95, 105, 100, 95, 99, 95, 49], msgRole = Assistant,
       content = [104, 101, 108, 108, 111], timestamp = None, codeBlocks = [],
       artifacts = [], order = 1, rawHtml = Some []\<rparr>"

definition byeMessage :: message where
  "byeMessage =
     \<lparr>msgId = [109, 115, 103, 95, 50, 101, 53, 102, 51, 102, 95, 50], msgRole = Assistant,
       content = [98, 121, 101], timestamp = None, codeBlocks = [],
       artifacts = [], order = 2, rawHtml = Some []\<rparr>"

definition smallResult :: captureResult where
  "smallResult =
     \<lparr>finalMessages =
        [helloMessage\<lparr>rawHtml := None\<rparr>, byeMessage\<lparr>order := 1, rawHtml := None\<rparr>],
       finalSession =
         \<lparr>capturedMessages = [helloMessage, helloAgainMessage, byeMessage],
           seenMessageHashes =
             {[50, 101, 53, 102, 51, 102], [105, 100, 95, 99], [105, 100, 95, 98],
              [105, 100, 95, 97]},
           isCapturing = False, scrollAttempts = 4\<rparr>,
       finalEvents =
         [event Initializing 0 None, event Scrolling 2 None, event Extracting 50 None,
          event Extracting (127 / 2) (Some 2), event Extracting 77 (Some 3),
          event Finalizing 95 None, event Complete 100 (Some 2)]\<rparr>"

text \<open>A message element whose own text is \<open>"hello"\<close> and which contains one
  descendant with no text at all. In \<open>shellElement\<close> that descendant is what the
  platform's content selector \<open>.message-text\<close> matches; in \<open>shellElementGeneric\<close> it is
  what the generic selector \<open>[class*="message-content"]\<close> matches.\<close>

definition emptyChild :: element where
  "emptyChild = plainElement [] [] None"

definition shellElement :: element where
  "shellElement =
     Element [0x68, 0x65, 0x6C, 0x6C, 0x6F] [] None None [] [0x68, 0x65, 0x6C, 0x6C, 0x6F]
       [(PlatformSelector ''.message-text'', emptyChild)] Assistant None [] []"

definition shellElementGeneric :: element where
  "shellElementGeneric =
     Element [0x68, 0x65, 0x6C, 0x6C, 0x6F] [] None None [] [0x68, 0x65, 0x6C, 0x6C, 0x6F]
       [(ClassContains ''message-content'', emptyChild)] Assistant None [] []"

definition withContentSelector :: platform where
  "withContentSelector =
     \<lparr>chatContainer = None, chatMessage = None,
       messageContent = Some (PlatformSelector ''.message-text''),
       loadMoreButton = None\<rparr>"

text \<open>Pages without message elements, for the scrolling phases alone. The viewport is 300
  high, so each step scrolls 200. On \<open>growingPage\<close> the scroll height grows with every
  iteration (800, 6400, 12000, ...) and the bottom is never reached; on \<open>steadyPage\<close>
  the height stays at 1000 and the bottom is reached in the fourth iteration; on
  \<open>stoppedPage\<close>, \<open>stop()\<close> runs during the first iteration.\<close>

definition growingSweep :: "nat \<Rightarrow> sweepObs" where
  "growingSweep k =
     \<lparr>visible = [], sweepScrollHeight = 800 * (7 * k + 1),
       sweepScrollTop = 200 * (real k + 1), sweepClientHeight = 300,
       visibleAtBottom = [], visibleAfterNudge = [], sweepStopRequested = False\<rparr>"

definition steadySweep :: "nat \<Rightarrow> sweepObs" where
  "steadySweep k =
     \<lparr>visible = [], sweepScrollHeight = 1000,
       sweepScrollTop = min (200 * (real k + 1)) 700, sweepClientHeight = 300,
       visibleAtBottom = [], visibleAfterNudge = [], sweepStopRequested = False\<rparr>"

definition stoppedSweep :: "nat \<Rightarrow> sweepObs" where
  "stoppedSweep k =
     \<lparr>visible = [], sweepScrollHeight = 1000,
       sweepScrollTop = min (200 * (real k + 1)) 700, sweepClientHeight = 300,
       visibleAtBottom = [], visibleAfterNudge = [], sweepStopRequested = (k = 0)\<rparr>"

definition emptyPage :: "(nat \<Rightarrow> sweepObs) \<Rightarrow> page" where
  "emptyPage sweep =
     \<lparr>containerFound = True, stopBeforeTop = False, topPage = quietTop,
       stopBeforeSweep = False, startClientHeight = 300,
       initiallyVisible = [], sweepPage = sweep\<rparr>"

definition growingPage :: page where
  "growingPage = emptyPage growingSweep"

definition steadyPage :: page where
  "steadyPage = emptyPage steadySweep"

definition stoppedPage :: page where
  "stoppedPage = emptyPage stoppedSweep"

text \<open>Scenario A: forty message elements \<open>m0, ..., m39\<close> with ids \<open>0, ..., 39\<close>, all
  rendered from the start and on every pass; no load-more button; the scroll height
  stays at 4000 and the position at the top; the viewport is 600 high, so each step
  scrolls 360 and the bottom is reached in the tenth iteration of the sweep.\<close>

definition messageElement :: "nat \<Rightarrow> element" where
  "messageElement i =
     plainElement (0x6D # digitsOf 10 (int i)) [] (Some (digitsOf 10 (int i)))"

definition scenarioElements :: "element list" where
  "scenarioElements = map messageElement [0..<40]"

definition scenarioTop :: "nat \<Rightarrow> topObs" where
  "scenarioTop k =
     \<lparr>loadMoreClicked = False, topScrollHeight = 4000, topScrollTop = 0,
       loadMoreVisible = False, topStopRequested = False\<rparr>"

definition scenarioSweep :: "nat \<Rightarrow> sweepObs" where
  "scenarioSweep k =
     \<lparr>visible = scenarioElements, sweepScrollHeight = 4000,
       sweepScrollTop = min (360 * (real k + 1)) 3400, sweepClientHeight = 600,
       visibleAtBottom = scenarioElements, visibleAfterNudge = scenarioElements,
       sweepStopRequested = False\<rparr>"

definition scenarioA :: page where
  "scenarioA =
     \<lparr>containerFound = True, stopBeforeTop = False, topPage = scenarioTop,
       stopBeforeSweep = False, startClientHeight = 600,
       initiallyVisible = scenarioElements, sweepPage = scenarioSweep\<rparr>"

text \<open>A page that shows three elements at the first pass and nothing afterwards: the
  element with id \<open>a\<close> and text \<open>"hello"\<close>, an element with the same id \<open>a\<close> and the
  text \<open>"bye"\<close>, and the element with id \<open>c\<close> and text \<open>"hello"\<close>.\<close>

definition elemAEdited :: element where
  "elemAEdited = plainElement [0x62, 0x79, 0x65] [] (Some [0x61])"

definition echoPage :: page where
  "echoPage =
     \<lparr>containerFound = True, stopBeforeTop = False, topPage = quietTop,
       stopBeforeSweep = False, startClientHeight = 300,
       initiallyVisible = [elemA, elemAEdited, elemC], sweepPage = steadySweep\<rparr>"

text \<open>A page without message elements whose scroll height grows by one pixel with
  every iteration, for ever, while the scroll position advances by 200 per step up to
  the end of the scrollable range.\<close>

definition creepingSweep :: "nat \<Rightarrow> sweepObs" where
  "creepingSweep k =
     \<lparr>visible = [], sweepScrollHeight = 1000 + k,
       sweepScrollTop = min (200 * (real k + 1)) (real (1000 + k) - 300),
       sweepClientHeight = 300,
       visibleAtBottom = [], visibleAfterNudge = [], sweepStopRequested = False\<rparr>"

definition creepingPage :: page where
  "creepingPage = emptyPage creepingSweep"

section \<open>Verified properties\<close>

subsection \<open>The accumulator and the finalization pass\<close>

lemma capturedFrom_snoc:
  "capturedFrom p (es @ [e]) = capturedFrom p es @ [extractMessage e p (length es)]"
  by (simp add: capturedFrom_def enumerate_append_eq)

lemma length_capturedFrom [simp]: "length (capturedFrom p es) = length es"
  by (simp add: capturedFrom_def)

lemma captureElement_seen:
  "fingerprint e \<in> seenMessageHashes s \<Longrightarrow> captureElement p s e = s"
  by (simp add: captureElement_def fingerprint_def)

lemma captureElement_blank:
  "fingerprint e \<notin> seenMessageHashes s \<Longrightarrow> blank (extractContent e p) \<Longrightarrow>
   captureElement p s e = s\<lparr>seenMessageHashes := insert (fingerprint e) (seenMessageHashes s)\<rparr>"
  by (simp add: captureElement_def fingerprint_def Let_def extractMessage_def blank_def)

lemma captureElement_new:
  "fingerprint e \<notin> seenMessageHashes s \<Longrightarrow> \<not> blank (extractContent e p) \<Longrightarrow>
   captureElement p s e =
     s\<lparr>seenMessageHashes := insert (fingerprint e) (seenMessageHashes s),
       capturedMessages := capturedMessages s @ [extractMessage e p (length (capturedMessages s))]\<rparr>"
  apply (auto simp add: captureElement_def fingerprint_def Let_def  blank_def)
  apply (auto simp: extractMessage_def trim_def)
  done


lemma accumulated_captureElement:
  assumes "accumulated p s es"
  shows "accumulated p (captureElement p s e)
           (if fingerprint e \<notin> seenMessageHashes s \<and> \<not> blank (extractContent e p)
            then es @ [e] else es)"
proof (cases "fingerprint e \<in> seenMessageHashes s")
  case True
  then show ?thesis using assms by (simp add: captureElement_seen)
next
  case False
  show ?thesis
  proof (cases "blank (extractContent e p)")
    case True
    with False assms show ?thesis
      by (auto simp: captureElement_blank accumulated_def)
  next
    case nb: False
    have "fingerprint e \<notin> fingerprint ` set es"
      using False assms by (auto simp: accumulated_def)
    with False nb assms show ?thesis
      by (auto simp: captureElement_new accumulated_def capturedFrom_snoc)
  qed
qed

lemma accumulated_captureVisibleMessages:
  "accumulated p s es \<Longrightarrow>
   \<exists>es'. accumulated p (captureVisibleMessages p els s) (es @ es') \<and> set es' \<subseteq> set els"
proof (induction els arbitrary: s es)
  case Nil
  then show ?case by (simp add: captureVisibleMessages_def)
next
  case (Cons e els)
  let ?es1 = "(if fingerprint e \<notin> seenMessageHashes s \<and> \<not> blank (extractContent e p)
            then es @ [e] else es)"
  have a: "accumulated p (captureElement p s e) ?es1"
    by (rule accumulated_captureElement [OF Cons.prems])
  from Cons.IH [OF a] obtain es' where
    b: "accumulated p (captureVisibleMessages p els (captureElement p s e)) (?es1 @ es')"
    and c: "set es' \<subseteq> set els" by blast
  have d: "captureVisibleMessages p (e # els) s
            = captureVisibleMessages p els (captureElement p s e)"
    by (simp add: captureVisibleMessages_def)
  show ?case
  proof (cases "fingerprint e \<notin> seenMessageHashes s \<and> \<not> blank (extractContent e p)")
    case True
    with b c d show ?thesis by (intro exI [of _ "e # es'"]) auto
  next
    case False
    with b c d show ?thesis by (intro exI [of _ es']) auto
  qed
qed

lemma captureElement_flags [simp]:
  "isCapturing (captureElement p s e) = isCapturing s"
  "scrollAttempts (captureElement p s e) = scrollAttempts s"
  by (simp_all add: captureElement_def Let_def)

lemma captureVisibleMessages_flags [simp]:
  "isCapturing (captureVisibleMessages p els s) = isCapturing s"
  "scrollAttempts (captureVisibleMessages p els s) = scrollAttempts s"
  by (induction els arbitrary: s) (simp_all add: captureVisibleMessages_def)

lemma accumulated_flags [simp]:
  "accumulated p (s\<lparr>isCapturing := b\<rparr>) es = accumulated p s es"
  "accumulated p (s\<lparr>scrollAttempts := n\<rparr>) es = accumulated p s es"
  by (simp_all add: accumulated_def)


lemma topLoop_invariant:
  assumes "P st" and step: "\<And>st ob. P st \<Longrightarrow> P (snd (topBody ob st))"
  shows "P (topLoop pg st)"
  using assms(1)
proof (induction pg st rule: topLoop.induct)
  case (1 pg st)
  show ?case
  proof (cases "iteration st < maxScrollAttempts \<and> isCapturing (topSess st)")
    case False
    then show ?thesis using "1.prems" by (subst topLoop.simps) auto
  next
    case True
    obtain brk st' where b: "topBody (pg (iteration st + 1)) st = (brk, st')"
      by (cases "topBody (pg (iteration st + 1)) st")
    have p': "P st'" using step [OF "1.prems", of "pg (iteration st + 1)"] b by simp
    show ?thesis
    proof (cases brk)
      case True
      with \<open>iteration st < maxScrollAttempts \<and> isCapturing (topSess st)\<close> b p'
      show ?thesis by (subst topLoop.simps) auto
    next
      case False
      have "P (topLoop pg st')"
        using "1.IH" [OF True b [symmetric]] False p' by simp
      with True b False show ?thesis by (subst topLoop.simps) auto
    qed
  qed
qed

lemma topBody_messages:
  "capturedMessages (topSess (snd (topBody ob st))) = capturedMessages (topSess st)
   \<and> seenMessageHashes (topSess (snd (topBody ob st))) = seenMessageHashes (topSess st)"
  by (simp add: topBody_def Let_def)

lemma topLoop_messages:
  "capturedMessages (topSess (topLoop pg st)) = capturedMessages (topSess st)
   \<and> seenMessageHashes (topSess (topLoop pg st)) = seenMessageHashes (topSess st)"
  by (rule topLoop_invariant [where P = "\<lambda>x. capturedMessages (topSess x) = capturedMessages (topSess st)
   \<and> seenMessageHashes (topSess x) = seenMessageHashes (topSess st)"])
     (simp_all add: topBody_messages)

lemma accumulated_cong:
  "capturedMessages s' = capturedMessages s \<Longrightarrow> seenMessageHashes s' = seenMessageHashes s
   \<Longrightarrow> accumulated p s' es = accumulated p s es"
  by (simp add: accumulated_def)

lemma scrollToAbsoluteTop_accumulated:
  "accumulated p (topSess (scrollToAbsoluteTop pg s ev)) es = accumulated p s es"
  by (rule accumulated_cong) (simp_all add: scrollToAbsoluteTop_def topLoop_messages)

lemma sweepBody_accumulated:
  assumes "\<exists>es. accumulated p (sess st) es"
  shows "\<exists>es. accumulated p (sess (snd (sweepBody p step ob st))) es"
proof -
  from assms obtain es where a: "accumulated p (sess st) es" ..
  let ?s1 = "(sess st)\<lparr>isCapturing := isCapturing (sess st) \<and> \<not> sweepStopRequested ob\<rparr>"
  have "accumulated p ?s1 es" using a by simp
  then obtain e2 where a2: "accumulated p (captureVisibleMessages p (visible ob) ?s1) (es @ e2)"
    using accumulated_captureVisibleMessages by blast
  then obtain e3 where a3: "accumulated p (captureVisibleMessages p (visibleAtBottom ob)
        (captureVisibleMessages p (visible ob) ?s1)) ((es @ e2) @ e3)"
    using accumulated_captureVisibleMessages by blast
  then obtain e4 where a4: "accumulated p (captureVisibleMessages p (visibleAfterNudge ob)
      (captureVisibleMessages p (visibleAtBottom ob)
        (captureVisibleMessages p (visible ob) ?s1))) (((es @ e2) @ e3) @ e4)"
    using accumulated_captureVisibleMessages by blast
  show ?thesis
    using a2 a4 by (auto simp: sweepBody_def Let_def)
qed

lemma sweepLoop_accumulated:
  "\<exists>es. accumulated p (sess st) es \<Longrightarrow>
   \<exists>es. accumulated p (sess (snd (sweepLoop fuel p step pg k st))) es"
proof (induction fuel arbitrary: k st)
  case 0
  then show ?case by simp
next
  case (Suc fuel)
  obtain r st' where b: "sweepBody p step (pg k) st = (r, st')"
    by (cases "sweepBody p step (pg k) st")
  have a': "\<exists>es. accumulated p (sess st') es"
    using sweepBody_accumulated [OF Suc.prems, of step "pg k"] b by simp
  show ?case
    using Suc.prems Suc.IH [OF a', of "Suc k"] a' b
    by (cases r) auto
qed

lemma accumulated_fresh: "accumulated p freshSession []"
  by (simp add: accumulated_def freshSession_def capturedFrom_def)

lemma scrollAndCaptureAll_accumulated:
  "\<exists>es. accumulated p s es \<Longrightarrow>
   \<exists>es. accumulated p (sess (snd (scrollAndCaptureAll fuel p pg s ev))) es"
proof -
  assume "\<exists>es. accumulated p s es"
  then obtain es where "accumulated p (s\<lparr>isCapturing := isCapturing s \<and> \<not> stopBeforeSweep pg\<rparr>) es"
    by auto
  then have "\<exists>es. accumulated p (captureVisibleMessages p (initiallyVisible pg)
        (s\<lparr>isCapturing := isCapturing s \<and> \<not> stopBeforeSweep pg\<rparr>)) es"
    using accumulated_captureVisibleMessages by blast
  then show ?thesis
    unfolding scrollAndCaptureAll_def Let_def
    by (intro sweepLoop_accumulated) simp
qed


lemma uniqueLoop_acc: "uniqueLoop xs H acc = acc @ uniqueLoop xs H []"
proof (induction xs arbitrary: H acc)
  case Nil
  then show ?case by simp
next
  case (Cons m xs)
  show ?case
    using Cons.IH [of "insert (contentHash m) H" "acc @ [m]"]
          Cons.IH [of "insert (contentHash m) H" "[m]"] Cons.IH [of H acc]
    by simp
qed

lemma uniqueLoop_Cons:
  "uniqueLoop (m # xs) H [] =
     (if contentHash m \<notin> H \<and> length (trim (content m)) > 0
      then m # uniqueLoop xs (insert (contentHash m) H) []
      else uniqueLoop xs H [])"
  using uniqueLoop_acc [of xs "insert (contentHash m) H" "[m]"] by simp

lemma uniqueLoop_subseq: "subseq (uniqueLoop xs H []) xs"
  by (induction xs arbitrary: H) (auto simp add: uniqueLoop_Cons simp del: uniqueLoop.simps(2))

lemma uniqueLoop_hashes:
  "contentHash ` set (uniqueLoop xs H []) =
     contentHash ` {m \<in> set xs. \<not> blank (content m)} - H"
proof (induction xs arbitrary: H)
  case Nil
  then show ?case by simp
next
  case (Cons m xs)
  show ?case
    using Cons.IH [of H] Cons.IH [of "insert (contentHash m) H"]
    by (auto simp: uniqueLoop_Cons blank_def simp del: uniqueLoop.simps(2))
qed

lemma uniqueLoop_distinct: "distinct (map contentHash (uniqueLoop xs H []))"
proof (induction xs arbitrary: H)
  case Nil
  then show ?case by simp
next
  case (Cons m xs)
  have "contentHash m \<notin> contentHash ` set (uniqueLoop xs (insert (contentHash m) H) [])"
    by (simp add: uniqueLoop_hashes)
  then show ?case
    using Cons.IH by (simp add: uniqueLoop_Cons del: uniqueLoop.simps(2))
qed

lemma uniqueLoop_nonblank: "list_all (\<lambda>m. \<not> blank (content m)) (uniqueLoop xs H [])"
  by (induction xs arbitrary: H)
     (simp_all add: uniqueLoop_Cons blank_def del: uniqueLoop.simps(2))

lemma length_renumber [simp]: "length (renumber u) = length u"
  by (simp add: renumber_def)

lemma nth_renumber:
  "i < length u \<Longrightarrow> renumber u ! i = (u ! i)\<lparr>order := i, rawHtml := None\<rparr>"
  by (simp add: renumber_def nth_enumerate_eq)

lemma order_renumber: "map order (renumber u) = [0..<length u]"
  by (rule nth_equalityI) (simp_all add: nth_renumber)

lemma content_renumber: "map content (renumber u) = map content u"
  by (rule nth_equalityI) (simp_all add: nth_renumber)

lemma contentHash_renumber: "map contentHash (renumber u) = map contentHash u"
  by (rule nth_equalityI) (simp_all add: nth_renumber contentHash_def)

lemma msgId_renumber: "map msgId (renumber u) = map msgId u"
  by (rule nth_equalityI) (simp_all add: nth_renumber)

lemma order_capturedFrom: "map order (capturedFrom p es) = [0..<length es]"
  by (rule nth_equalityI) (simp_all add: capturedFrom_def nth_enumerate_eq extractMessage_def)

lemma content_capturedFrom: "map content (capturedFrom p es) = map (\<lambda>e. extractContent e p) es"
  by (rule nth_equalityI) (simp_all add: capturedFrom_def nth_enumerate_eq extractMessage_def)

lemma sort_capturedFrom: "sort_key order (capturedFrom p es) = capturedFrom p es"
  by (rule sort_key_id_if_sorted) (simp add: order_capturedFrom)

subsection \<open>Deduplication, order and blank content in the final output\<close>

lemma processMessages_flags [simp]:
  "processMessages (s\<lparr>isCapturing := b\<rparr>) = processMessages s"
  by (simp add: processMessages_def)

lemma captureFullHistory_Inr:
  assumes "captureFullHistory fuel p pg = Some (Inr r)"
  shows "finalMessages r = processMessages (finalSession r)
         \<and> (\<exists>es. accumulated p (finalSession r) es)"
proof -
  let ?top = "scrollToAbsoluteTop pg freshSession
                [event Initializing 0 None, event Scrolling 2 None]"
  let ?sw = "scrollAndCaptureAll fuel p pg (topSess ?top)
               (topEvents ?top @ [event Extracting 50 None])"
  have "accumulated p (topSess ?top) []"
    by (simp add: scrollToAbsoluteTop_accumulated accumulated_fresh)
  then have "\<exists>es. accumulated p (topSess ?top) es" ..
  then have a: "\<exists>es. accumulated p (sess (snd ?sw)) es"
    by (rule scrollAndCaptureAll_accumulated)
  obtain x st where sw: "?sw = (x, st)" by (cases ?sw)
  from assms sw have r: "r = \<lparr>finalMessages = processMessages (sess st),
        finalSession = (sess st)\<lparr>isCapturing := False\<rparr>,
        finalEvents = emitted st @ [event Finalizing 95 None,
           event Complete 100 (Some (length (processMessages (sess st))))]\<rparr>"
    by (cases x) (auto simp: captureFullHistory_def Let_def split: if_splits)
  from a sw show ?thesis by (simp add: r)
qed

lemma processMessages_accumulated:
  "accumulated p s es \<Longrightarrow>
   processMessages s = renumber (uniqueLoop (capturedMessages s) {} [])"
  by (simp add: processMessages_def accumulated_def sort_capturedFrom)

lemma sorted_wrt_subseq_keeps:
  "subseq xs ys \<Longrightarrow> sorted_wrt R ys \<Longrightarrow> sorted_wrt R xs"
proof (induction rule: list_emb.induct)
  case (list_emb_Nil ys)
  then show ?case by simp
next
  case (list_emb_Cons xs ys y)
  then show ?case by simp
next
  case (list_emb_Cons2 x y xs ys)
  then have "set xs \<subseteq> set ys" by (auto dest: list_emb_set)
  with list_emb_Cons2 show ?case by auto
qed

lemma processMessages_nonblank:
  "list_all (\<lambda>m. \<not> blank (content m)) (processMessages s)"
proof -
  have "list_all (\<lambda>t. \<not> blank t) (map content (processMessages s))"
    unfolding processMessages_def content_renumber
    using uniqueLoop_nonblank [of "sort_key order (capturedMessages s)" "{}"]
    by (simp add: list_all_iff)
  then show ?thesis by (simp add: list_all_iff)
qed

lemma seen_captureElement:
  "h \<in> seenMessageHashes s \<Longrightarrow> h \<in> seenMessageHashes (captureElement p s x)"
  by (simp add: captureElement_def Let_def)

lemma captureVisibleMessages_skip:
  "h \<in> seenMessageHashes s \<Longrightarrow>
   captureVisibleMessages p (filter (\<lambda>x. fingerprint x \<noteq> h) els) s
     = captureVisibleMessages p els s"
proof (induction els arbitrary: s)
  case Nil
  then show ?case by simp
next
  case (Cons x els)
  show ?case
  proof (cases "fingerprint x = h")
    case True
    then have "captureElement p s x = s" using Cons.prems by (simp add: captureElement_seen)
    then show ?thesis using True Cons by (simp add: captureVisibleMessages_def)
  next
    case False
    then show ?thesis
      using Cons.IH [OF seen_captureElement [OF Cons.prems, of p x]]
      by (simp add: captureVisibleMessages_def)
  qed
qed

lemma seen_captureVisibleMessages:
  "h \<in> seenMessageHashes s \<Longrightarrow> h \<in> seenMessageHashes (captureVisibleMessages p els s)"
  by (induction els arbitrary: s) (simp_all add: captureVisibleMessages_def seen_captureElement)

lemma capturePasses_skip:
  "h \<in> seenMessageHashes s \<Longrightarrow>
   capturePasses p (map (filter (\<lambda>x. fingerprint x \<noteq> h)) passes) s
     = capturePasses p passes s"
proof (induction passes arbitrary: s)
  case Nil
  then show ?case by simp
next
  case (Cons els passes)
  show ?case
    using Cons.IH [OF seen_captureVisibleMessages [OF Cons.prems, of p els]]
          captureVisibleMessages_skip [OF Cons.prems, of p els]
    by (simp add: capturePasses_def)
qed

lemma smallPage_run: "captureFullHistory 5 noSelectors smallPage = Some (Inr smallResult)"
  by code_simp

text \<open>
  C2. When \<open>captureFullHistory\<close> returns, the \<open>order\<close> values of the output are exactly
  \<open>0, ..., N-1\<close> in this sequence (hence ascending, without gaps or repeats), and the
  output is the renumbering of a subsequence of the accumulated messages whose
  capture-time \<open>order\<close> values increase strictly.
\<close>

theorem captureFullHistory_order_dense:
  assumes "captureFullHistory fuel p pg = Some (Inr r)"
  shows "map order (finalMessages r) = [0..<length (finalMessages r)]
         \<and> sorted (map order (finalMessages r))
         \<and> (\<exists>kept. subseq kept (capturedMessages (finalSession r))
               \<and> sorted_wrt (<) (map order kept)
               \<and> finalMessages r = renumber kept)"
proof -
  from captureFullHistory_Inr [OF assms] obtain es where
    f: "finalMessages r = processMessages (finalSession r)"
    and a: "accumulated p (finalSession r) es" by blast
  let ?kept = "uniqueLoop (capturedMessages (finalSession r)) {} []"
  have pm: "finalMessages r = renumber ?kept"
    using f processMessages_accumulated [OF a] by simp
  have dense: "map order (finalMessages r) = [0..<length (finalMessages r)]"
    by (simp add: pm order_renumber)
  have sub: "subseq ?kept (capturedMessages (finalSession r))"
    by (rule uniqueLoop_subseq)
  have "sorted_wrt (<) (map order (capturedMessages (finalSession r)))"
    using a by (simp add: accumulated_def order_capturedFrom)
  moreover have "subseq (map order ?kept) (map order (capturedMessages (finalSession r)))"
    using sub by (rule subseq_map)
  ultimately have st: "sorted_wrt (<) (map order ?kept)"
    using sorted_wrt_subseq_keeps by blast
  have "sorted (map order (finalMessages r))"
    by (simp only: dense sorted_upt)
  with dense sub pm st show ?thesis by blast
qed

theorem captureFullHistory_order_dense_witness:
  "captureFullHistory 5 noSelectors smallPage = Some (Inr smallResult)
   \<and> map order (finalMessages smallResult) = [0, 1]
   \<and> map order (capturedMessages (finalSession smallResult)) = [0, 1, 2]"
  using smallPage_run captureFullHistory_order_dense [OF smallPage_run]
  by (simp add: smallResult_def helloMessage_def helloAgainMessage_def byeMessage_def)

text \<open>
  C5. When \<open>captureFullHistory\<close> returns, no message of the output has blank content
  (empty after trimming), and the accumulated messages are the extractions of elements
  none of which has blank extracted content.
\<close>

theorem captureFullHistory_excludes_blank:
  assumes "captureFullHistory fuel p pg = Some (Inr r)"
  shows "list_all (\<lambda>m. \<not> blank (content m)) (finalMessages r)
         \<and> (\<exists>es. capturedMessages (finalSession r) = capturedFrom p es
               \<and> list_all (\<lambda>e. \<not> blank (extractContent e p)) es)"
proof -
  from captureFullHistory_Inr [OF assms] obtain es where
    f: "finalMessages r = processMessages (finalSession r)"
    and a: "accumulated p (finalSession r) es" by blast
  from a have "capturedMessages (finalSession r) = capturedFrom p es
               \<and> list_all (\<lambda>e. \<not> blank (extractContent e p)) es"
    by (simp add: accumulated_def)
  then show ?thesis using f processMessages_nonblank [of "finalSession r"] by auto
qed

theorem captureFullHistory_excludes_blank_witness:
  "captureFullHistory 5 noSelectors smallPage = Some (Inr smallResult)
   \<and> blank (extractContent elemB noSelectors)
   \<and> list_all (\<lambda>m. \<not> blank (content m)) (finalMessages smallResult)
   \<and> map content (finalMessages smallResult)
       = [[104, 101, 108, 108, 111], [98, 121, 101]]"
proof -
  have b: "blank (extractContent elemB noSelectors)"
    by (simp add: blank_def extractContent_def platformContentEl_def noSelectors_def
        contentSelectors_def querySelector_def getCleanText_def elemB_def plainElement_def
        trim_def isWhiteSpace_def)
  show ?thesis
    using b smallPage_run captureFullHistory_excludes_blank [OF smallPage_run]
    by (simp add: smallResult_def helloMessage_def byeMessage_def)
qed

text \<open>
  C9. The fingerprint enters the seen-set before the content is checked. When an element
  with an unseen fingerprint extracts blank content, nothing is appended, the fingerprint
  is seen from then on, and every later pass behaves as if the elements carrying that
  fingerprint were not there, whatever content they have by then.
\<close>

theorem blank_first_observation_excludes_fingerprint:
  assumes "fingerprint e \<notin> seenMessageHashes s" and "blank (extractContent e p)"
  shows "capturedMessages (captureElement p s e) = capturedMessages s
         \<and> fingerprint e \<in> seenMessageHashes (captureElement p s e)
         \<and> capturePasses p passes (captureElement p s e)
             = capturePasses p (map (filter (\<lambda>x. fingerprint x \<noteq> fingerprint e)) passes)
                 (captureElement p s e)"
proof -
  have s': "captureElement p s e
              = s\<lparr>seenMessageHashes := insert (fingerprint e) (seenMessageHashes s)\<rparr>"
    using assms by (rule captureElement_blank)
  then have "fingerprint e \<in> seenMessageHashes (captureElement p s e)" by simp
  then show ?thesis using s' capturePasses_skip [of "fingerprint e" _ p passes] by simp
qed

theorem blank_first_observation_excludes_fingerprint_witness:
  "fingerprint elemB \<notin> seenMessageHashes freshSession
   \<and> blank (extractContent elemB noSelectors)
   \<and> \<not> blank (extractContent elemBLater noSelectors)
   \<and> fingerprint elemBLater = fingerprint elemB
   \<and> capturedMessages
         (capturePasses noSelectors [[elemBLater]]
            (captureElement noSelectors freshSession elemB)) = []"
proof -
  have h1: "fingerprint elemB \<notin> seenMessageHashes freshSession"
    by (simp add: freshSession_def)
  have h2: "blank (extractContent elemB noSelectors)"
    by (simp add: blank_def extractContent_def platformContentEl_def noSelectors_def
        contentSelectors_def querySelector_def getCleanText_def elemB_def plainElement_def
        trim_def isWhiteSpace_def)
  have h3: "\<not> blank (extractContent elemBLater noSelectors)"
    by (simp add: blank_def extractContent_def platformContentEl_def noSelectors_def
        contentSelectors_def querySelector_def getCleanText_def elemBLater_def plainElement_def
        trim_def isWhiteSpace_def)
  have h4: "fingerprint elemBLater = fingerprint elemB"
    by (simp add: fingerprint_def elemBLater_def elemB_def plainElement_def orEmpty_def)
  have "capturedMessages
         (capturePasses noSelectors [[elemBLater]]
            (captureElement noSelectors freshSession elemB)) = []"
    using blank_first_observation_excludes_fingerprint [OF h1 h2, of "[[elemBLater]]"]
    by (simp add: h4 capturePasses_def captureVisibleMessages_def freshSession_def)
  with h1 h2 h3 h4 show ?thesis by simp
qed

subsection \<open>Phase 1 stays within its iteration cap\<close>

lemma iteration_topBody: "iteration (snd (topBody ob st)) = iteration st + 1"
  by (simp add: topBody_def Let_def)

lemma topLoop_bound:
  "iteration (topLoop pg st) \<le> max (iteration st) maxScrollAttempts"
proof (induction pg st rule: topLoop.induct)
  case (1 pg st)
  show ?case
  proof (cases "iteration st < maxScrollAttempts \<and> isCapturing (topSess st)")
    case False
    then show ?thesis by (subst topLoop.simps) auto
  next
    case True
    obtain brk st' where b: "topBody (pg (iteration st + 1)) st = (brk, st')"
      by (cases "topBody (pg (iteration st + 1)) st")
    have it: "iteration st' = iteration st + 1"
      using iteration_topBody [of "pg (iteration st + 1)" st] b by simp
    show ?thesis
    proof (cases brk)
      case True
      with \<open>iteration st < maxScrollAttempts \<and> isCapturing (topSess st)\<close> b it
      show ?thesis by (subst topLoop.simps) auto
    next
      case False
      have "iteration (topLoop pg st') \<le> max (iteration st') maxScrollAttempts"
        using "1.IH" [OF True b [symmetric]] False by simp
      with True b it False show ?thesis by (subst topLoop.simps) auto
    qed
  qed
qed

lemma topLoop_from_zero:
  "iteration st = 0 \<Longrightarrow> iteration (topLoop pg st) \<le> maxScrollAttempts"
  using topLoop_bound [of pg st] by simp

text \<open>The cap is what stops the loop on a page that never settles: when every
  iteration clicks a load-more button and nobody cancels, the loop runs up to the cap.\<close>

lemma topLoop_restless_reaches_cap:
  "\<forall>k. loadMoreClicked (pg k) \<and> \<not> topStopRequested (pg k) \<Longrightarrow>
   isCapturing (topSess st) \<Longrightarrow> iteration st \<le> maxScrollAttempts \<Longrightarrow>
   iteration (topLoop pg st) = maxScrollAttempts"
proof (induction pg st rule: topLoop.induct)
  case (1 pg st)
  show ?case
  proof (cases "iteration st < maxScrollAttempts")
    case False
    then show ?thesis using "1.prems" by (subst topLoop.simps) auto
  next
    case True
    let ?ob = "pg (iteration st + 1)"
    obtain brk st' where b: "topBody ?ob st = (brk, st')"
      by (cases "topBody ?ob st")
    have "loadMoreClicked ?ob" "\<not> topStopRequested ?ob" using "1.prems"(1) by auto
    then have f: "\<not> brk" "iteration st' = iteration st + 1" "isCapturing (topSess st')"
      using b "1.prems"(2) by (auto simp: topBody_def Let_def)
    have "iteration (topLoop pg st') = maxScrollAttempts"
      using "1.IH" [OF _ b [symmetric]] True "1.prems" f by auto
    then show ?thesis
      using True "1.prems"(2) b f by (subst topLoop.simps) auto
  qed
qed

text \<open>
  C3. \<open>scrollToAbsoluteTop\<close> is a total function of the host page's answers, and the
  number of loop iterations it executes never exceeds \<open>maxScrollAttempts = 300\<close>,
  whatever scroll heights the page reports and whether or not a load-more button is
  present.
\<close>

theorem scrollToAbsoluteTop_terminates_within_cap:
  "iteration (scrollToAbsoluteTop pg s events) \<le> maxScrollAttempts \<and> maxScrollAttempts = 300"
  by (simp add: scrollToAbsoluteTop_def topLoop_from_zero) (simp add: maxScrollAttempts_def)

subsection \<open>The rolling hash\<close>

lemma toInt32_sint: "toInt32 x = sint (word_of_int x :: 32 word)"
  by (simp add: toInt32_def int_word_sint)

lemma hash_step:
  "toInt32 ((toInt32 (toInt32 (sint w) * 2 ^ 5) - sint w) + uint c)
     = sint ((w::32 word) * 31 + ucast c)"
proof -
  have a: "(word_of_int (sint w) :: 32 word) = w" by simp
  have b: "(word_of_int (sint w * 2 ^ 5) :: 32 word) = w * 32"
    by (simp only: of_int_mult of_int_power of_int_numeral a) simp
  have c: "(word_of_int (uint c) :: 32 word) = ucast c"
    by (simp only: ucast_eq)
  have "(word_of_int ((sint (w * 32) - sint w) + uint c) :: 32 word) = w * 32 - w + ucast c"
    by (simp only: of_int_add of_int_diff of_int_sint c scast_id)
  also have "\<dots> = w * 31 + ucast c" by (simp add: algebra_simps)
  finally show ?thesis by (simp only: toInt32_sint a b)
qed

lemma hashLoop_rolling: "hashLoop (sint w) s = sint (rollingHash31 w s)"
  by (induction s arbitrary: w) (simp_all only: hashLoop.simps rollingHash31.simps hash_step)

lemma hashString_rolling: "hashString s = hexOfRollingHash s"
  using hashLoop_rolling [of 0 s] by (simp add: hashString_def hexOfRollingHash_def)

text \<open>
  C4, as the specification words it, takes the first 300 characters of the trimmed
  text. The code slices first and trims afterwards: on a text of one space followed by
  300 letters the two differ (299 letters are hashed, not 300).
\<close>

theorem hashElement_trim_then_slice_counterexample:
  "hashElement (DomElement paddedElement)
     \<noteq> hexOfRollingHash (slice0 300 (trim (textContent paddedElement))
                            @ slice0 50 (className paddedElement))"
  by code_simp

text \<open>
  C4, amended. For every element without a page-supplied stable id (both
  \<open>data-message-id\<close> and \<open>data-id\<close> absent or empty), the fingerprint is the
  hexadecimal rendering of the 32-bit multiply-by-31-and-add rolling hash of the trimmed
  first 300 code units of the element's text (sliced, then trimmed) followed by the
  first 50 code units of its class name. The right-hand side is a function of the text
  and the class name alone, so equal inputs give equal fingerprints.
\<close>

theorem hashElement_without_id:
  assumes "orEmpty (dataMessageId el) = []" and "orEmpty (dataId el) = []"
  shows "hashElement (DomElement el)
           = hexOfRollingHash (trim (slice0 300 (textContent el)) @ slice0 50 (className el))"
  using assms by (simp add: hashString_rolling slice0_def Let_def)

theorem hashElement_without_id_witness:
  "orEmpty (dataMessageId sampleElement) = [] \<and> orEmpty (dataId sampleElement) = []
   \<and> hashElement (DomElement sampleElement) = hexOfRollingHash [0x68, 0x69, 0x6D]"
proof -
  have h1: "orEmpty (dataMessageId sampleElement) = []"
    by (simp add: sampleElement_def plainElement_def orEmpty_def)
  have h2: "orEmpty (dataId sampleElement) = []"
    by (simp add: sampleElement_def plainElement_def orEmpty_def)
  have t: "trim (slice0 300 (textContent sampleElement)) @ slice0 50 (className sampleElement)
             = [0x68, 0x69, 0x6D]"
    by (simp add: sampleElement_def plainElement_def trim_def slice0_def isWhiteSpace_def)
  show ?thesis using h1 h2 hashElement_without_id [OF h1 h2] by (simp only: t)
qed

subsection \<open>Content extraction\<close>

text \<open>
  C6. When the platform's content selector matches a descendant whose cleaned text is
  empty, \<open>extractContent\<close> returns the empty string at once: it does not go on to the
  generic selectors or to the element's own text, which is \<open>"hello"\<close> here. The generic
  selectors do fall through on the same descendant.
\<close>

theorem extractContent_platform_match_empty:
  "extractContent shellElement withContentSelector = []
   \<and> getCleanText shellElement = [0x68, 0x65, 0x6C, 0x6C, 0x6F]
   \<and> extractContent shellElementGeneric noSelectors = [0x68, 0x65, 0x6C, 0x6C, 0x6F]"
  by (simp add: extractContent_def platformContentEl_def withContentSelector_def
      noSelectors_def querySelector_def shellElement_def shellElementGeneric_def
      emptyChild_def plainElement_def getCleanText_def trim_def isWhiteSpace_def
      contentSelectors_def)

subsection \<open>Phase 2 exits only at the bottom or on cancellation\<close>

lemma sweepBody_exit:
  "fst (sweepBody p step ob st) =
     (if atBottomOf ob then Some ReachedBottom else None)"
  by (simp add: sweepBody_def Let_def)

lemma sweepBody_capturing:
  "isCapturing (sess (snd (sweepBody p step ob st)))
     = (isCapturing (sess st) \<and> \<not> sweepStopRequested ob)"
  by (simp add: sweepBody_def Let_def)

lemma sweepLoop_exit_reasons:
  "fst (sweepLoop fuel p step pg k st) \<noteq> Some NoGrowthAtBottom
   \<and> (fst (sweepLoop fuel p step pg k st) = Some ReachedBottom
        \<longrightarrow> (\<exists>j. k \<le> j \<and> j < k + fuel \<and> atBottomOf (pg j)))
   \<and> (fst (sweepLoop fuel p step pg k st) = Some Cancelled
        \<longrightarrow> \<not> isCapturing (sess (snd (sweepLoop fuel p step pg k st))))"
proof (induction fuel arbitrary: k st)
  case 0
  then show ?case by simp
next
  case (Suc fuel)
  obtain r st' where b: "sweepBody p step (pg k) st = (r, st')"
    by (cases "sweepBody p step (pg k) st")
  have r: "r = (if atBottomOf (pg k) then Some ReachedBottom else None)"
    using sweepBody_exit [of p step "pg k" st] b by simp
  show ?case
  proof (cases "isCapturing (sess st)")
    case False
    then show ?thesis by simp
  next
    case True
    show ?thesis
    proof (cases "atBottomOf (pg k)")
      case bot: True
      with True b r show ?thesis by auto
    next
      case nb: False
      have eq: "sweepLoop (Suc fuel) p step pg k st = sweepLoop fuel p step pg (Suc k) st'"
        using True b r nb by simp
      show ?thesis
        unfolding eq using Suc.IH [of "Suc k" st']
        by (metis Suc_leD add_Suc_shift)
    qed
  qed
qed

lemma sweepLoop_never_exits:
  assumes "\<And>j. \<not> atBottomOf (pg j) \<and> \<not> sweepStopRequested (pg j)"
  shows "isCapturing (sess st) \<Longrightarrow> fst (sweepLoop fuel p step pg k st) = None"
proof (induction fuel arbitrary: k st)
  case 0
  then show ?case by simp
next
  case (Suc fuel)
  obtain r st' where b: "sweepBody p step (pg k) st = (r, st')"
    by (cases "sweepBody p step (pg k) st")
  have r: "r = None"
    using sweepBody_exit [of p step "pg k" st] b assms by simp
  have c: "isCapturing (sess st')"
    using sweepBody_capturing [of p step "pg k" st] b assms Suc.prems by simp
  show ?case using Suc.prems b r Suc.IH [OF c] by simp
qed

lemma sweepLoop_numeral:
  "sweepLoop (numeral n) p scrollStep pg k st =
     (if \<not> isCapturing (sess st) then (Some Cancelled, st)
      else (case sweepBody p scrollStep (pg k) st of
              (Some r, st') \<Rightarrow> (Some r, st')
            | (None, st') \<Rightarrow> sweepLoop (pred_numeral n) p scrollStep pg (Suc k) st'))"
  by (simp add: numeral_eq_Suc)

lemmas sweep_eval = scrollAndCaptureAll_def emptyPage_def freshSession_def scrollStepOf_def
  captureVisibleMessages_def sweepBody_def atBottomOf_def sweepProgress_def Let_def
  sweepLoop_numeral maxStable_def

lemma steadyPage_run:
  "fst (scrollAndCaptureAll 5 noSelectors steadyPage freshSession []) = Some ReachedBottom"
  by (simp add: sweep_eval steadyPage_def steadySweep_def)

lemma stoppedPage_run:
  "fst (scrollAndCaptureAll 5 noSelectors stoppedPage freshSession []) = Some Cancelled"
  by (simp add: sweep_eval stoppedPage_def stoppedSweep_def)

lemma growingPage_never_at_bottom:
  "isCapturing freshSession \<and> \<not> stopBeforeSweep growingPage
   \<and> (\<forall>j. \<not> atBottomOf (sweepPage growingPage j)
            \<and> \<not> sweepStopRequested (sweepPage growingPage j))"
  by (simp add: freshSession_def growingPage_def emptyPage_def growingSweep_def atBottomOf_def)




subsection \<open>Scenario A: a page at rest with forty rendered messages\<close>

lemma topLoop_continue:
  "iteration st < maxScrollAttempts \<Longrightarrow> isCapturing (topSess st) \<Longrightarrow>
   topBody (pg (iteration st + 1)) st = (False, st') \<Longrightarrow> topLoop pg st = topLoop pg st'"
  by (subst topLoop.simps) simp

lemma topLoop_break:
  "iteration st < maxScrollAttempts \<Longrightarrow> isCapturing (topSess st) \<Longrightarrow>
   topBody (pg (iteration st + 1)) st = (True, st') \<Longrightarrow> topLoop pg st = st'"
  by (subst topLoop.simps) simp

lemma scrollToAbsoluteTop_quiet:
  assumes q: "quiet (topPage pg 1) h" "quiet (topPage pg 2) h" "quiet (topPage pg 3) h"
    "quiet (topPage pg 4) h"
    and c: "isCapturing s" "\<not> stopBeforeTop pg"
  shows "scrollToAbsoluteTop pg s ev =
           \<lparr>iteration = 4, previousScrollHeight = int h, topStableCount = 3,
             topSess = s\<lparr>scrollAttempts := 4\<rparr>, topEvents = ev\<rparr>"
proof -
  let ?st = "\<lambda>i prev n. \<lparr>iteration = i, previousScrollHeight = prev, topStableCount = n,
             topSess = s\<lparr>scrollAttempts := i, isCapturing := True\<rparr>, topEvents = ev\<rparr>"
  let ?init = "\<lparr>iteration = 0, previousScrollHeight = - 1, topStableCount = 0,
             topSess = s\<lparr>isCapturing := True\<rparr>, topEvents = ev\<rparr>"
  have s: "s\<lparr>scrollAttempts := 4, isCapturing := True\<rparr> = s\<lparr>scrollAttempts := 4\<rparr>"
    using c by simp
  have n: "Suc (Suc 0) = 2" "Suc (Suc (Suc 0)) = 3" "Suc (Suc (Suc (Suc 0))) = 4"
    by simp_all
  have b1: "topBody (topPage pg (iteration ?init + 1)) ?init = (False, ?st 1 (int h) 0)"
    using q(1) by (simp add: topBody_def quiet_def Let_def n)
  have b2: "topBody (topPage pg (iteration (?st 1 (int h) 0) + 1)) (?st 1 (int h) 0)
              = (False, ?st 2 (int h) 1)"
    using q(2) by (simp add: topBody_def quiet_def Let_def n)
  have b3: "topBody (topPage pg (iteration (?st 2 (int h) 1) + 1)) (?st 2 (int h) 1)
              = (False, ?st 3 (int h) 2)"
    using q(3) by (simp add: topBody_def quiet_def Let_def n)
  have b4: "topBody (topPage pg (iteration (?st 3 (int h) 2) + 1)) (?st 3 (int h) 2)
              = (True, ?st 4 (int h) 3)"
    using q(4) by (simp add: topBody_def quiet_def Let_def n)
  have "scrollToAbsoluteTop pg s ev = topLoop (topPage pg) ?init"
    using c by (simp add: scrollToAbsoluteTop_def)
  also have "\<dots> = topLoop (topPage pg) (?st 1 (int h) 0)"
    using topLoop_continue [where pg = "topPage pg" and st = ?init, OF _ _ b1]
    by (simp add: maxScrollAttempts_def)
  also have "\<dots> = topLoop (topPage pg) (?st 2 (int h) 1)"
    using topLoop_continue [where pg = "topPage pg" and st = "?st 1 (int h) 0", OF _ _ b2]
    by (simp add: maxScrollAttempts_def)
  also have "\<dots> = topLoop (topPage pg) (?st 3 (int h) 2)"
    using topLoop_continue [where pg = "topPage pg" and st = "?st 2 (int h) 1", OF _ _ b3]
    by (simp add: maxScrollAttempts_def)
  also have "\<dots> = ?st 4 (int h) 3"
    using topLoop_break [where pg = "topPage pg" and st = "?st 3 (int h) 2", OF _ _ b4]
    by (simp add: maxScrollAttempts_def)
  finally show ?thesis by (simp only: s)
qed


lemma captureVisibleMessages_all_seen:
  "fingerprint ` set els \<subseteq> seenMessageHashes s \<Longrightarrow> captureVisibleMessages p els s = s"
  by (induction els) (simp_all add: captureVisibleMessages_def captureElement_seen)

lemma captureVisibleMessages_all_new:
  assumes "accumulated p s es" and "distinct (map fingerprint els)"
    and "fingerprint ` set els \<inter> seenMessageHashes s = {}"
    and "list_all (\<lambda>e. \<not> blank (extractContent e p)) els"
  shows "capturedMessages (captureVisibleMessages p els s) = capturedFrom p (es @ els)
         \<and> seenMessageHashes (captureVisibleMessages p els s)
             = seenMessageHashes s \<union> fingerprint ` set els"
  using assms
proof (induction els arbitrary: s es)
  case Nil
  then show ?case by (simp add: captureVisibleMessages_def accumulated_def)
next
  case (Cons e els)
  have new: "fingerprint e \<notin> seenMessageHashes s" and nb: "\<not> blank (extractContent e p)"
    using Cons.prems by auto
  have a: "accumulated p (captureElement p s e) (es @ [e])"
    using accumulated_captureElement [OF Cons.prems(1), of e] new nb by simp
  have seen: "seenMessageHashes (captureElement p s e) = insert (fingerprint e) (seenMessageHashes s)"
    using new nb by (simp add: captureElement_new)
  have "capturedMessages (captureVisibleMessages p els (captureElement p s e))
          = capturedFrom p ((es @ [e]) @ els)
        \<and> seenMessageHashes (captureVisibleMessages p els (captureElement p s e))
            = seenMessageHashes (captureElement p s e) \<union> fingerprint ` set els"
    using Cons.prems by (intro Cons.IH [OF a]) (auto simp: seen)
  then show ?case by (simp add: captureVisibleMessages_def seen)
qed

lemma sweepBody_settled:
  assumes "fingerprint ` set (visible ob) \<subseteq> seenMessageHashes (sess st)"
    and "fingerprint ` set (visibleAtBottom ob) \<subseteq> seenMessageHashes (sess st)"
    and "fingerprint ` set (visibleAfterNudge ob) \<subseteq> seenMessageHashes (sess st)"
    and "\<not> sweepStopRequested ob" and "isCapturing (sess st)"
  shows "fst (sweepBody p step ob st) = (if atBottomOf ob then Some ReachedBottom else None)
         \<and> sess (snd (sweepBody p step ob st)) = sess st"
proof -
  have s1: "(sess st)\<lparr>isCapturing := isCapturing (sess st) \<and> \<not> sweepStopRequested ob\<rparr> = sess st"
    using assms by simp
  show ?thesis
    using assms by (simp add: sweepBody_def Let_def s1 captureVisibleMessages_all_seen)
qed

lemma sweepLoop_settled:
  assumes vis: "\<And>j. fingerprint ` set (visible (pg j)) \<subseteq> seen
          \<and> fingerprint ` set (visibleAtBottom (pg j)) \<subseteq> seen
          \<and> fingerprint ` set (visibleAfterNudge (pg j)) \<subseteq> seen
          \<and> \<not> sweepStopRequested (pg j)"
    and bottom: "atBottomOf (pg n)"
  shows "seenMessageHashes (sess st) = seen \<Longrightarrow> isCapturing (sess st) \<Longrightarrow> k \<le> n \<Longrightarrow>
         n < k + fuel \<Longrightarrow>
         fst (sweepLoop fuel p step pg k st) = Some ReachedBottom
         \<and> sess (snd (sweepLoop fuel p step pg k st)) = sess st"
proof (induction fuel arbitrary: k st)
  case 0
  then show ?case by simp
next
  case (Suc fuel)
  obtain r st' where b: "sweepBody p step (pg k) st = (r, st')"
    by (cases "sweepBody p step (pg k) st")
  have body: "r = (if atBottomOf (pg k) then Some ReachedBottom else None) \<and> sess st' = sess st"
    using sweepBody_settled [of "pg k" st p step] vis [of k] Suc.prems(1,2) b by simp
  show ?case
  proof (cases "atBottomOf (pg k)")
    case True
    then show ?thesis using Suc.prems body b by simp
  next
    case False
    then have "k \<noteq> n" using bottom by auto
    then have "Suc k \<le> n" "n < Suc k + fuel" using Suc.prems by auto
    then have "fst (sweepLoop fuel p step pg (Suc k) st') = Some ReachedBottom
         \<and> sess (snd (sweepLoop fuel p step pg (Suc k) st')) = sess st'"
      using Suc.prems(1,2) body by (intro Suc.IH) auto
    then show ?thesis using Suc.prems False body b by simp
  qed
qed

lemma uniqueLoop_all_kept:
  "distinct (map contentHash xs) \<Longrightarrow> list_all (\<lambda>m. \<not> blank (content m)) xs \<Longrightarrow>
   contentHash ` set xs \<inter> H = {} \<Longrightarrow> uniqueLoop xs H [] = xs"
proof (induction xs arbitrary: H)
  case Nil
  then show ?case by simp
next
  case (Cons m xs)
  have "uniqueLoop xs (insert (contentHash m) H) [] = xs"
    using Cons.prems by (intro Cons.IH) auto
  then show ?case
    using Cons.prems by (auto simp: uniqueLoop_Cons blank_def simp del: uniqueLoop.simps(2))
qed

lemma contentKey_capturedFrom:
  "map contentHash (capturedFrom p es) = map (contentKey p) es"
  by (rule nth_equalityI)
     (simp_all add: capturedFrom_def nth_enumerate_eq extractMessage_def contentHash_def
                    contentKey_def)

lemma contentHash_capturedFrom:
  "map contentHash (capturedFrom p es) = map (\<lambda>e. hashElement (PlainObject (extractContent e p))) es"
  by (rule nth_equalityI)
     (simp_all add: capturedFrom_def nth_enumerate_eq extractMessage_def contentHash_def)

lemma scenarioA_top: "\<forall>k. quiet (topPage scenarioA k) 4000"
  by (simp add: quiet_def scenarioA_def scenarioTop_def)

lemma scenario_fingerprints: "distinct (map fingerprint scenarioElements)"
  by code_simp

lemma scenario_contents: "distinct (map (contentKey noSelectors) scenarioElements)"
  by code_simp

lemma scenario_nonblank:
  "list_all (\<lambda>e. \<not> blank (extractContent e noSelectors)) scenarioElements"
  by code_simp




subsection \<open>Progress values within a phase\<close>

lemma topProgress_mono: "i \<le> j \<Longrightarrow> topProgress i \<le> topProgress j"
  by (simp add: topProgress_def maxScrollAttempts_def min_le_iff_disj divide_right_mono)

lemma topProgress_range: "2 \<le> topProgress i \<and> topProgress i \<le> 45"
  by (simp add: topProgress_def maxScrollAttempts_def)

lemma topBody_events:
  assumes "topEventsOk st"
  shows "topEventsOk (snd (topBody ob st))"
proof -
  have m: "topProgress (iteration st) \<le> topProgress (iteration st + 1)"
    by (rule topProgress_mono) simp
  have le: "list_all (\<lambda>e. 2 \<le> progress e \<and> progress e \<le> topProgress (iteration st + 1))
              (topEvents st)"
    using assms m by (auto simp: topEventsOk_def list_all_iff)
  have r: "2 \<le> topProgress (iteration st + 1)" using topProgress_range by blast
  show ?thesis
    using assms le r
    by (auto simp: topBody_def Let_def topEventsOk_def sorted_append list_all_iff)
qed

lemma topLoop_events: "topEventsOk st \<Longrightarrow> topEventsOk (topLoop pg st)"
  by (rule topLoop_invariant [where P = topEventsOk]) (simp_all add: topBody_events)

lemma sweepProgress_range: "0 \<le> a \<Longrightarrow> 50 \<le> sweepProgress a h \<and> sweepProgress a h \<le> 95"
  by (simp add: sweepProgress_def)

lemma sweepProgress_mono:
  assumes "0 \<le> a" "a \<le> b" "h' \<le> h"
  shows "sweepProgress a h \<le> sweepProgress b h'"
proof (cases "h' = 0")
  case True
  then show ?thesis using assms sweepProgress_range [of a h] by (simp add: sweepProgress_def)
next
  case False
  then have "0 < real h'" "real h' \<le> real h" using assms by auto
  then have "a / real h \<le> b / real h'" using assms by (intro frac_le) auto
  then have "a / real h * 45 \<le> b / real h' * 45" by (rule mult_right_mono) simp
  then have "min 45 (a / real h * 45) \<le> min 45 (b / real h' * 45)"
    by (intro min.mono) simp_all
  moreover have "h \<noteq> 0" using False assms by simp
  ultimately show ?thesis using False by (simp only: sweepProgress_def if_False add_left_mono)
qed

lemma sweepBody_fields:
  "totalScrolled (snd (sweepBody p step ob st)) = totalScrolled st + step
   \<and> map progress (emitted (snd (sweepBody p step ob st)))
       = map progress (emitted st) @ [sweepProgress (totalScrolled st + step) (sweepScrollHeight ob)]"
  by (simp add: sweepBody_def Let_def)

lemma sweepLoop_progress_range:
  "0 \<le> step \<Longrightarrow> 0 \<le> totalScrolled st \<Longrightarrow>
   list_all (\<lambda>x. 50 \<le> x \<and> x \<le> 95) (map progress (emitted st)) \<Longrightarrow>
   list_all (\<lambda>x. 50 \<le> x \<and> x \<le> 95)
     (map progress (emitted (snd (sweepLoop fuel p step pg k st))))"
proof (induction fuel arbitrary: k st)
  case 0
  then show ?case by simp
next
  case (Suc fuel)
  obtain r st' where b: "sweepBody p step (pg k) st = (r, st')"
    by (cases "sweepBody p step (pg k) st")
  have f: "totalScrolled st' = totalScrolled st + step"
    "map progress (emitted st')
       = map progress (emitted st) @ [sweepProgress (totalScrolled st + step) (sweepScrollHeight (pg k))]"
    using sweepBody_fields [of p step "pg k" st] b by simp_all
  have ok: "list_all (\<lambda>x. 50 \<le> x \<and> x \<le> 95) (map progress (emitted st'))"
    using Suc.prems sweepProgress_range [of "totalScrolled st + step" "sweepScrollHeight (pg k)"]
    by (simp add: f)
  have "0 \<le> totalScrolled st'" using Suc.prems f by simp
  from Suc.IH [OF Suc.prems(1) this ok, of "Suc k"] ok Suc.prems(3) b
  show ?case by (cases r) auto
qed

lemma sweepLoop_progress_sorted:
  assumes h: "\<And>j. sweepScrollHeight (pg (Suc j)) \<le> sweepScrollHeight (pg j)" and "0 \<le> step"
  shows "0 \<le> totalScrolled st \<Longrightarrow> sorted (map progress (emitted st)) \<Longrightarrow>
   list_all (\<lambda>x. x \<le> sweepProgress (totalScrolled st + step) (sweepScrollHeight (pg k)))
     (map progress (emitted st)) \<Longrightarrow>
   sorted (map progress (emitted (snd (sweepLoop fuel p step pg k st))))"
proof (induction fuel arbitrary: k st)
  case 0
  then show ?case by simp
next
  case (Suc fuel)
  obtain r st' where b: "sweepBody p step (pg k) st = (r, st')"
    by (cases "sweepBody p step (pg k) st")
  let ?x = "sweepProgress (totalScrolled st + step) (sweepScrollHeight (pg k))"
  let ?y = "sweepProgress (totalScrolled st + step + step) (sweepScrollHeight (pg (Suc k)))"
  have f: "totalScrolled st' = totalScrolled st + step"
    "map progress (emitted st') = map progress (emitted st) @ [?x]"
    using sweepBody_fields [of p step "pg k" st] b by simp_all
  have xy: "?x \<le> ?y"
    using Suc.prems(1) assms(2) h [of k] by (intro sweepProgress_mono) auto
  have s: "sorted (map progress (emitted st'))"
    using Suc.prems by (auto simp: f sorted_append list_all_iff)
  have le: "list_all (\<lambda>x. x \<le> sweepProgress (totalScrolled st' + step)
                 (sweepScrollHeight (pg (Suc k)))) (map progress (emitted st'))"
    using Suc.prems(3) xy by (auto simp: f list_all_iff)
  have "0 \<le> totalScrolled st'" using Suc.prems assms(2) f by simp
  from Suc.IH [OF this s le] s Suc.prems(2) b
  show ?case by (cases r) auto
qed

text \<open>
  C8 says that the progress values of a phase never decrease, whatever the page does.
  On a page whose scroll height grows from 800 to 6400 between the first two iterations
  of the sweep, the reported values are 50, 61.25 and then 52.8125.
\<close>

theorem growing_page_progress_counterexample:
  "map progress
     (emitted (snd (scrollAndCaptureAll 2 noSelectors growingPage freshSession
                      [event Extracting 50 None])))
     = [50, 245 / 4, 845 / 16]
   \<and> \<not> sorted (map progress
         (emitted (snd (scrollAndCaptureAll 2 noSelectors growingPage freshSession
                          [event Extracting 50 None]))))"
proof -
  have "map progress
     (emitted (snd (scrollAndCaptureAll 2 noSelectors growingPage freshSession
                      [event Extracting 50 None])))
     = [50, 245 / 4, 845 / 16]"
    by (simp add: sweep_eval growingPage_def growingSweep_def event_def)
  moreover have "\<not> sorted [50, 245 / 4, 845 / 16 :: real]"
    by (simp only: sorted2) simp
  ultimately show ?thesis by (simp only: simp_thms)
qed

text \<open>
  C8, amended. In phase 1 the progress values (the 2 reported on entry and
  \<open>min(45, 2 + (iteration/300)*43)\<close> at every tenth iteration) never decrease and stay
  between 2 and 45, for every page. In phase 2 the progress values (the 50 reported on
  entry and \<open>50 + min(45, (totalScrolled / scrollHeight)*45)\<close> at every iteration) stay
  between 50 and 95 for every page, and never decrease on a page whose scroll height
  does not grow from one iteration to the next.
\<close>

theorem progress_within_phases:
  "sorted (map progress (topEvents (scrollToAbsoluteTop pg s [event Scrolling 2 None])))
   \<and> list_all (\<lambda>x. 2 \<le> x \<and> x \<le> 45)
         (map progress (topEvents (scrollToAbsoluteTop pg s [event Scrolling 2 None])))
   \<and> list_all (\<lambda>x. 50 \<le> x \<and> x \<le> 95)
         (map progress
            (emitted (snd (scrollAndCaptureAll fuel p pg s' [event Extracting 50 None]))))
   \<and> ((\<forall>k. sweepScrollHeight (sweepPage pg (Suc k)) \<le> sweepScrollHeight (sweepPage pg k))
        \<longrightarrow> sorted (map progress
              (emitted (snd (scrollAndCaptureAll fuel p pg s' [event Extracting 50 None])))))"
proof -
  let ?init = "\<lparr>iteration = 0, previousScrollHeight = - 1, topStableCount = 0,
         topSess = s\<lparr>isCapturing := isCapturing s \<and> \<not> stopBeforeTop pg\<rparr>,
         topEvents = [event Scrolling 2 None]\<rparr>"
  have "topEventsOk ?init"
    by (simp add: topEventsOk_def event_def topProgress_def maxScrollAttempts_def)
  then have ok: "topEventsOk (scrollToAbsoluteTop pg s [event Scrolling 2 None])"
    unfolding scrollToAbsoluteTop_def by (rule topLoop_events)
  have t1: "sorted (map progress (topEvents (scrollToAbsoluteTop pg s [event Scrolling 2 None])))"
    using ok by (simp add: topEventsOk_def)
  have t2: "list_all (\<lambda>x. 2 \<le> x \<and> x \<le> 45)
         (map progress (topEvents (scrollToAbsoluteTop pg s [event Scrolling 2 None])))"
    using ok topProgress_range by (auto simp: topEventsOk_def list_all_iff intro: order_trans)
  let ?step = "scrollStepOf (startClientHeight pg)"
  let ?st = "\<lparr>sess = captureVisibleMessages p (initiallyVisible pg)
                       (s'\<lparr>isCapturing := isCapturing s' \<and> \<not> stopBeforeSweep pg\<rparr>),
             totalScrolled = 0, previousMessageCount = 0, sweepStableCount = 0,
             emitted = [event Extracting 50 None]\<rparr>"
  have eq: "scrollAndCaptureAll fuel p pg s' [event Extracting 50 None]
              = sweepLoop fuel p ?step (sweepPage pg) 0 ?st"
    by (simp add: scrollAndCaptureAll_def Let_def)
  have step: "0 \<le> ?step" by (simp add: scrollStepOf_def)
  have t3: "list_all (\<lambda>x. 50 \<le> x \<and> x \<le> 95)
         (map progress
            (emitted (snd (scrollAndCaptureAll fuel p pg s' [event Extracting 50 None]))))"
    unfolding eq by (rule sweepLoop_progress_range [OF step]) (simp_all add: event_def)
  have t4: "sorted (map progress
              (emitted (snd (scrollAndCaptureAll fuel p pg s' [event Extracting 50 None]))))"
    if h: "\<forall>k. sweepScrollHeight (sweepPage pg (Suc k)) \<le> sweepScrollHeight (sweepPage pg k)"
  proof -
    have "50 \<le> sweepProgress (0 + ?step) (sweepScrollHeight (sweepPage pg 0))"
      using sweepProgress_range [of "0 + ?step"] step by simp
    then show ?thesis
      unfolding eq using h
      by (intro sweepLoop_progress_sorted [OF _ step]) (simp_all add: event_def)
  qed
  from t1 t2 t3 t4 show ?thesis by blast
qed

theorem progress_within_phases_witness:
  "(\<forall>k. sweepScrollHeight (sweepPage steadyPage (Suc k))
          \<le> sweepScrollHeight (sweepPage steadyPage k))
   \<and> sorted (map progress
         (emitted (snd (scrollAndCaptureAll 5 noSelectors steadyPage freshSession
                          [event Extracting 50 None]))))
   \<and> map progress
         (emitted (snd (scrollAndCaptureAll 5 noSelectors steadyPage freshSession
                          [event Extracting 50 None])))
       = [50, 59, 68, 77, 86]"
proof -
  have h: "\<forall>k. sweepScrollHeight (sweepPage steadyPage (Suc k))
          \<le> sweepScrollHeight (sweepPage steadyPage k)"
    by (simp add: steadyPage_def emptyPage_def steadySweep_def)
  have v: "map progress
         (emitted (snd (scrollAndCaptureAll 5 noSelectors steadyPage freshSession
                          [event Extracting 50 None])))
       = [50, 59, 68, 77, 86]"
    by (simp add: sweep_eval steadyPage_def steadySweep_def event_def)
  show ?thesis
    using h v progress_within_phases [of steadyPage freshSession 5 noSelectors freshSession]
    by blast
qed

subsection \<open>What the output keeps of the elements shown\<close>

declare firstOccurrences.simps(2) [simp del]

lemma firstOccurrences_subset: "set (firstOccurrences key xs) \<subseteq> set xs"
  by (induction key xs rule: firstOccurrences.induct)
     (auto simp: firstOccurrences.simps(2))

lemma firstOccurrences_keys: "key ` set (firstOccurrences key xs) = key ` set xs"
proof (induction key xs rule: firstOccurrences.induct)
  case (1 key)
  then show ?case by simp
next
  case (2 key x xs)
  have "key ` set (x # xs) = insert (key x) (key ` set (filter (\<lambda>y. key y \<noteq> key x) xs))"
    by auto
  then show ?case using 2 by (simp add: firstOccurrences.simps(2))
qed

lemma firstOccurrences_distinct: "distinct (map key (firstOccurrences key xs))"
proof (induction key xs rule: firstOccurrences.induct)
  case (1 key)
  then show ?case by simp
next
  case (2 key x xs)
  have "key x \<notin> key ` set (firstOccurrences key (filter (\<lambda>y. key y \<noteq> key x) xs))"
    by (auto simp: firstOccurrences_keys)
  then show ?case using 2 by (simp add: firstOccurrences.simps(2))
qed

lemma firstOccurrences_append:
  "firstOccurrences key (xs @ ys) =
     firstOccurrences key xs
       @ firstOccurrences key (filter (\<lambda>y. key y \<notin> key ` set xs) ys)"
proof (induction key xs arbitrary: ys rule: firstOccurrences.induct)
  case (1 key)
  then show ?case by simp
next
  case (2 key x xs)
  let ?P = "\<lambda>y. key y \<noteq> key x"
  have f: "filter (\<lambda>y. key y \<notin> key ` set (filter ?P xs)) (filter ?P ys)
             = filter (\<lambda>y. key y \<notin> key ` set (x # xs)) ys"
  proof -
    have "filter (\<lambda>y. key y \<notin> key ` set (filter ?P xs)) (filter ?P ys)
            = filter (\<lambda>y. ?P y \<and> key y \<notin> key ` set (filter ?P xs)) ys"
      by (rule filter_filter)
    also have "\<dots> = filter (\<lambda>y. key y \<notin> key ` set (x # xs)) ys"
      by (rule filter_cong) (auto simp: image_iff)
    finally show ?thesis .
  qed
  have "firstOccurrences key ((x # xs) @ ys)
          = x # firstOccurrences key (filter ?P xs @ filter ?P ys)"
    by (simp add: firstOccurrences.simps(2))
  also have "\<dots> = x # (firstOccurrences key (filter ?P xs)
              @ firstOccurrences key
                  (filter (\<lambda>y. key y \<notin> key ` set (filter ?P xs)) (filter ?P ys)))"
    by (simp only: "2.IH")
  also have "\<dots> = x # (firstOccurrences key (filter ?P xs)
              @ firstOccurrences key (filter (\<lambda>y. key y \<notin> key ` set (x # xs)) ys))"
    by (simp only: f)
  also have "\<dots> = firstOccurrences key (x # xs)
              @ firstOccurrences key (filter (\<lambda>y. key y \<notin> key ` set (x # xs)) ys)"
    by (simp only: firstOccurrences.simps(2) append_Cons)
  finally show ?case .
qed


lemma filter_unseen_Cons:
  "filter (\<lambda>y. key y \<noteq> key x) (filter (\<lambda>y. key y \<notin> S) xs)
     = filter (\<lambda>y. key y \<notin> insert (key x) S) xs"
proof -
  have "filter (\<lambda>y. key y \<noteq> key x) (filter (\<lambda>y. key y \<notin> S) xs)
          = filter (\<lambda>y. key y \<notin> S \<and> key y \<noteq> key x) xs"
    by (rule filter_filter)
  also have "\<dots> = filter (\<lambda>y. key y \<notin> insert (key x) S) xs"
    by (rule filter_cong) auto
  finally show ?thesis .
qed

lemma captureVisibleMessages_first_occurrences:
  "capturedMessages s = capturedFrom p es \<Longrightarrow>
   capturedMessages (captureVisibleMessages p xs s)
     = capturedFrom p
         (es @ filter (\<lambda>e. \<not> blank (extractContent e p))
                 (firstOccurrences fingerprint
                    (filter (\<lambda>e. fingerprint e \<notin> seenMessageHashes s) xs)))
   \<and> seenMessageHashes (captureVisibleMessages p xs s)
       = seenMessageHashes s \<union> fingerprint ` set xs"
proof (induction xs arbitrary: s es)
  case Nil
  then show ?case by (simp add: captureVisibleMessages_def)
next
  case (Cons x xs)
  have step: "captureVisibleMessages p (x # xs) s
                = captureVisibleMessages p xs (captureElement p s x)"
    by (simp add: captureVisibleMessages_def)
  show ?case
  proof (cases "fingerprint x \<in> seenMessageHashes s")
    case True
    then have "captureElement p s x = s" by (rule captureElement_seen)
    then show ?thesis using True Cons.IH [OF Cons.prems] by (auto simp: step)
  next
    case False
    let ?s' = "captureElement p s x"
    let ?es' = "if blank (extractContent x p) then es else es @ [x]"
    have seen': "seenMessageHashes ?s' = insert (fingerprint x) (seenMessageHashes s)"
      using False by (cases "blank (extractContent x p)")
                     (simp_all add: captureElement_blank captureElement_new)
    have cap': "capturedMessages ?s' = capturedFrom p ?es'"
      using False Cons.prems
      by (cases "blank (extractContent x p)")
         (simp_all add: captureElement_blank captureElement_new capturedFrom_snoc)
    have fo: "firstOccurrences fingerprint
                (filter (\<lambda>e. fingerprint e \<notin> seenMessageHashes s) (x # xs))
              = x # firstOccurrences fingerprint
                      (filter (\<lambda>e. fingerprint e \<notin> seenMessageHashes ?s') xs)"
    proof -
      have "filter (\<lambda>e. fingerprint e \<notin> seenMessageHashes s) (x # xs)
              = x # filter (\<lambda>e. fingerprint e \<notin> seenMessageHashes s) xs"
        using False by simp
      then show ?thesis
        by (simp only: firstOccurrences.simps(2) filter_unseen_Cons seen')
    qed
    show ?thesis
      using Cons.IH [OF cap'] by (simp only: step fo seen') auto
  qed
qed

lemma capturePasses_first_occurrences:
  "capturedMessages s = capturedFrom p es \<Longrightarrow>
   capturedMessages (capturePasses p passes s)
     = capturedFrom p
         (es @ filter (\<lambda>e. \<not> blank (extractContent e p))
                 (firstOccurrences fingerprint
                    (filter (\<lambda>e. fingerprint e \<notin> seenMessageHashes s) (concat passes))))
   \<and> seenMessageHashes (capturePasses p passes s)
       = seenMessageHashes s \<union> fingerprint ` set (concat passes)"
proof (induction passes arbitrary: s es)
  case Nil
  then show ?case by (simp add: capturePasses_def)
next
  case (Cons xs passes)
  let ?S = "seenMessageHashes s"
  let ?s' = "captureVisibleMessages p xs s"
  let ?nb = "\<lambda>e. \<not> blank (extractContent e p)"
  let ?new = "filter ?nb (firstOccurrences fingerprint (filter (\<lambda>e. fingerprint e \<notin> ?S) xs))"
  have a: "capturedMessages ?s' = capturedFrom p (es @ ?new)"
    and b: "seenMessageHashes ?s' = ?S \<union> fingerprint ` set xs"
    using captureVisibleMessages_first_occurrences [OF Cons.prems, of xs] by simp_all
  have step: "capturePasses p (xs # passes) s = capturePasses p passes ?s'"
    by (simp add: capturePasses_def)
  have f: "filter (\<lambda>y. fingerprint y \<notin> fingerprint ` set (filter (\<lambda>e. fingerprint e \<notin> ?S) xs))
             (filter (\<lambda>e. fingerprint e \<notin> ?S) (concat passes))
           = filter (\<lambda>e. fingerprint e \<notin> ?S \<union> fingerprint ` set xs) (concat passes)"
  proof -
    have "filter (\<lambda>y. fingerprint y \<notin> fingerprint ` set (filter (\<lambda>e. fingerprint e \<notin> ?S) xs))
             (filter (\<lambda>e. fingerprint e \<notin> ?S) (concat passes))
          = filter (\<lambda>y. fingerprint y \<notin> ?S
               \<and> fingerprint y \<notin> fingerprint ` set (filter (\<lambda>e. fingerprint e \<notin> ?S) xs))
             (concat passes)"
      by (rule filter_filter)
    also have "\<dots> = filter (\<lambda>e. fingerprint e \<notin> ?S \<union> fingerprint ` set xs) (concat passes)"
      by (rule filter_cong) (auto simp: image_iff)
    finally show ?thesis .
  qed
  have split: "firstOccurrences fingerprint
                 (filter (\<lambda>e. fingerprint e \<notin> ?S) (concat (xs # passes)))
               = firstOccurrences fingerprint (filter (\<lambda>e. fingerprint e \<notin> ?S) xs)
                 @ firstOccurrences fingerprint
                     (filter (\<lambda>e. fingerprint e \<notin> seenMessageHashes ?s') (concat passes))"
    by (simp only: concat.simps filter_append firstOccurrences_append f b)
  show ?case
    using Cons.IH [OF a] by (simp only: step split b) auto
qed

lemma uniqueLoop_first_occurrences:
  "uniqueLoop xs H [] =
     firstOccurrences contentHash
       (filter (\<lambda>m. contentHash m \<notin> H \<and> \<not> blank (content m)) xs)"
proof (induction xs arbitrary: H)
  case Nil
  then show ?case by simp
next
  case (Cons m xs)
  show ?case
  proof (cases "contentHash m \<notin> H \<and> \<not> blank (content m)")
    case False
    then show ?thesis
      using Cons.IH [of H]
      by (auto simp: uniqueLoop_Cons blank_def simp del: uniqueLoop.simps(2))
  next
    case True
    have f: "filter (\<lambda>y. contentHash y \<noteq> contentHash m)
               (filter (\<lambda>m. contentHash m \<notin> H \<and> \<not> blank (content m)) xs)
             = filter (\<lambda>y. contentHash y \<notin> insert (contentHash m) H \<and> \<not> blank (content y)) xs"
    proof -
      have "filter (\<lambda>y. contentHash y \<noteq> contentHash m)
               (filter (\<lambda>m. contentHash m \<notin> H \<and> \<not> blank (content m)) xs)
            = filter (\<lambda>y. (contentHash y \<notin> H \<and> \<not> blank (content y))
                           \<and> contentHash y \<noteq> contentHash m) xs"
        by (rule filter_filter)
      also have "\<dots> = filter (\<lambda>y. contentHash y \<notin> insert (contentHash m) H
                                    \<and> \<not> blank (content y)) xs"
        by (rule filter_cong) auto
      finally show ?thesis .
    qed
    have u: "uniqueLoop (m # xs) H [] = m # uniqueLoop xs (insert (contentHash m) H) []"
      using True by (simp add: uniqueLoop_Cons blank_def del: uniqueLoop.simps(2))
    have r: "filter (\<lambda>m. contentHash m \<notin> H \<and> \<not> blank (content m)) (m # xs)
               = m # filter (\<lambda>m. contentHash m \<notin> H \<and> \<not> blank (content m)) xs"
      using True by simp
    show ?thesis
      by (simp only: u r firstOccurrences.simps(2) f Cons.IH)
  qed
qed

lemma sameMessages_refl [simp]: "sameMessages s s"
  by (simp add: sameMessages_def)

lemma sameMessages_flag [simp]: "sameMessages (s\<lparr>isCapturing := b\<rparr>) s"
  by (simp add: sameMessages_def)

lemma sameMessages_trans: "sameMessages a b \<Longrightarrow> sameMessages b c \<Longrightarrow> sameMessages a c"
  by (simp add: sameMessages_def)

lemma captureElement_same:
  "sameMessages s s' \<Longrightarrow> sameMessages (captureElement p s e) (captureElement p s' e)"
  by (simp add: sameMessages_def captureElement_def Let_def)

lemma captureVisibleMessages_same:
  "sameMessages s s' \<Longrightarrow>
   sameMessages (captureVisibleMessages p xs s) (captureVisibleMessages p xs s')"
  by (induction xs arbitrary: s s')
     (simp_all add: captureVisibleMessages_def captureElement_same)

lemma capturePasses_same:
  "sameMessages s s' \<Longrightarrow> sameMessages (capturePasses p passes s) (capturePasses p passes s')"
  by (induction passes arbitrary: s s')
     (simp_all add: capturePasses_def captureVisibleMessages_same)

lemma sweepBody_sess:
  "sess (snd (sweepBody p step ob st)) =
     (let s2 = captureVisibleMessages p (visible ob)
                 ((sess st)\<lparr>isCapturing := isCapturing (sess st) \<and> \<not> sweepStopRequested ob\<rparr>)
      in if atBottomOf ob
         then captureVisibleMessages p (visibleAfterNudge ob)
                (captureVisibleMessages p (visibleAtBottom ob) s2)
         else s2)"
  by (simp add: sweepBody_def Let_def)

lemma sweepLoop_shown:
  "sameMessages (sess (snd (sweepLoop fuel p step pg k st)))
     (capturePasses p (sweepShown fuel pg k (isCapturing (sess st))) (sess st))"
proof (induction fuel arbitrary: k st)
  case 0
  then show ?case by (simp add: capturePasses_def)
next
  case (Suc fuel)
  show ?case
  proof (cases "isCapturing (sess st)")
    case False
    then show ?thesis by (simp add: capturePasses_def)
  next
    case True
    let ?s1 = "(sess st)\<lparr>isCapturing := isCapturing (sess st) \<and> \<not> sweepStopRequested (pg k)\<rparr>"
    let ?s2 = "captureVisibleMessages p (visible (pg k)) ?s1"
    obtain r st' where b: "sweepBody p step (pg k) st = (r, st')"
      by (cases "sweepBody p step (pg k) st")
    have r: "r = (if atBottomOf (pg k) then Some ReachedBottom else None)"
      using sweepBody_exit [of p step "pg k" st] b by simp
    have s': "sess st' = (if atBottomOf (pg k)
         then captureVisibleMessages p (visibleAfterNudge (pg k))
                (captureVisibleMessages p (visibleAtBottom (pg k)) ?s2)
         else ?s2)"
      using sweepBody_sess [of p step "pg k" st] b by (simp add: Let_def)
    have v: "sameMessages ?s2 (captureVisibleMessages p (visible (pg k)) (sess st))"
      by (rule captureVisibleMessages_same) simp
    show ?thesis
    proof (cases "atBottomOf (pg k)")
      case bot: True
      have "sameMessages (sess st')
              (captureVisibleMessages p (visibleAfterNudge (pg k))
                (captureVisibleMessages p (visibleAtBottom (pg k))
                  (captureVisibleMessages p (visible (pg k)) (sess st))))"
        unfolding s' using bot v by (simp add: captureVisibleMessages_same)
      then show ?thesis using True bot b r by (simp add: capturePasses_def)
    next
      case nb: False
      have c: "isCapturing (sess st') = (\<not> sweepStopRequested (pg k))"
        using s' nb True by simp
      have "sameMessages (sess (snd (sweepLoop fuel p step pg (Suc k) st')))
              (capturePasses p (sweepShown fuel pg (Suc k) (isCapturing (sess st'))) (sess st'))"
        by (rule Suc.IH)
      moreover have "sameMessages
              (capturePasses p (sweepShown fuel pg (Suc k) (isCapturing (sess st'))) (sess st'))
              (capturePasses p (sweepShown fuel pg (Suc k) (isCapturing (sess st')))
                 (captureVisibleMessages p (visible (pg k)) (sess st)))"
        using s' nb v by (intro capturePasses_same) simp
      ultimately have "sameMessages (sess (snd (sweepLoop fuel p step pg (Suc k) st')))
              (capturePasses p (sweepShown fuel pg (Suc k) (isCapturing (sess st')))
                 (captureVisibleMessages p (visible (pg k)) (sess st)))"
        by (rule sameMessages_trans)
      then show ?thesis using True nb b r c by (simp add: capturePasses_def)
    qed
  qed
qed

lemma captureFullHistory_shown:
  assumes "captureFullHistory fuel p pg = Some (Inr r)"
  shows "sameMessages (finalSession r) (capturePasses p (shownPasses fuel pg) freshSession)"
proof -
  let ?top = "scrollToAbsoluteTop pg freshSession
                [event Initializing 0 None, event Scrolling 2 None]"
  let ?s0 = "(topSess ?top)\<lparr>isCapturing := isCapturing (topSess ?top) \<and> \<not> stopBeforeSweep pg\<rparr>"
  let ?s1 = "captureVisibleMessages p (initiallyVisible pg) ?s0"
  let ?st = "\<lparr>sess = ?s1, totalScrolled = 0, previousMessageCount = 0,
               sweepStableCount = 0, emitted = topEvents ?top @ [event Extracting 50 None]\<rparr>"
  let ?sw = "sweepLoop fuel p (scrollStepOf (startClientHeight pg)) (sweepPage pg) 0 ?st"
  have sweq: "scrollAndCaptureAll fuel p pg (topSess ?top)
                (topEvents ?top @ [event Extracting 50 None]) = ?sw"
    by (simp add: scrollAndCaptureAll_def Let_def)
  obtain x st' where sw: "?sw = (x, st')" by (cases ?sw)
  from assms sweq sw have fs: "finalSession r = (sess st')\<lparr>isCapturing := False\<rparr>"
    by (cases x) (auto simp: captureFullHistory_def Let_def split: if_splits)
  have top: "sameMessages (topSess ?top) freshSession"
    by (simp add: sameMessages_def scrollToAbsoluteTop_def topLoop_messages)
  have "sameMessages ?s0 freshSession"
    using top by (simp add: sameMessages_def)
  then have s1: "sameMessages ?s1 (captureVisibleMessages p (initiallyVisible pg) freshSession)"
    by (rule captureVisibleMessages_same)
  have flag: "isCapturing ?s1 = (isCapturing (topSess ?top) \<and> \<not> stopBeforeSweep pg)"
    by simp
  have "sameMessages (sess (snd ?sw))
          (capturePasses p (sweepShown fuel (sweepPage pg) 0 (isCapturing (sess ?st))) (sess ?st))"
    by (rule sweepLoop_shown)
  moreover have "sameMessages
          (capturePasses p (sweepShown fuel (sweepPage pg) 0 (isCapturing (sess ?st))) (sess ?st))
          (capturePasses p (sweepShown fuel (sweepPage pg) 0 (isCapturing (sess ?st)))
             (captureVisibleMessages p (initiallyVisible pg) freshSession))"
    using s1 by (intro capturePasses_same) simp
  ultimately have "sameMessages (sess (snd ?sw))
          (capturePasses p (sweepShown fuel (sweepPage pg) 0 (isCapturing (sess ?st)))
             (captureVisibleMessages p (initiallyVisible pg) freshSession))"
    by (rule sameMessages_trans)
  then have "sameMessages (sess st') (capturePasses p (shownPasses fuel pg) freshSession)"
    using sw by (simp add: shownPasses_def capturePasses_def flag)
  then show ?thesis by (simp add: fs sameMessages_def)
qed

lemma sweepShown_numeral:
  "sweepShown (numeral n) pg k capturing =
     (if \<not> capturing then []
      else if atBottomOf (pg k)
           then [visible (pg k), visibleAtBottom (pg k), visibleAfterNudge (pg k)]
           else visible (pg k)
                  # sweepShown (pred_numeral n) pg (Suc k)
                      (capturing \<and> \<not> sweepStopRequested (pg k)))"
  by (simp add: numeral_eq_Suc)

lemma smallPage_shown:
  "concat (shownPasses 5 smallPage)
     = [elemA, elemB, elemB, elemC, elemC, elemBye, elemC, elemBye, elemA, elemBye]"
proof -
  have "scrollToAbsoluteTop smallPage freshSession
          [event Initializing 0 None, event Scrolling 2 None] =
           \<lparr>iteration = 4, previousScrollHeight = int 1000, topStableCount = 3,
             topSess = freshSession\<lparr>scrollAttempts := 4\<rparr>,
             topEvents = [event Initializing 0 None, event Scrolling 2 None]\<rparr>"
    by (intro scrollToAbsoluteTop_quiet)
       (simp_all add: quiet_def smallPage_def quietTop_def freshSession_def)
  then show ?thesis
    by (simp add: shownPasses_def sweepShown_numeral smallPage_def smallSweep_def
                  atBottomOf_def freshSession_def)
qed

lemma small_fingerprints:
  "fingerprint elemA = [105, 100, 95, 97]" "fingerprint elemB = [105, 100, 95, 98]"
  "fingerprint elemC = [105, 100, 95, 99]" "fingerprint elemBye = [50, 101, 53, 102, 51, 102]"
  "fingerprint elemAEdited = [105, 100, 95, 97]"
  by (simp_all add: fingerprint_def elemA_def elemB_def elemC_def elemBye_def elemAEdited_def
      plainElement_def orEmpty_def js_def hashString_def trim_def slice0_def isWhiteSpace_def
      toInt32_def toStringRadix_def digitsOf.simps digitChar_def)

lemma small_contents:
  "extractContent elemA noSelectors = [104, 101, 108, 108, 111]"
  "extractContent elemB noSelectors = []"
  "extractContent elemC noSelectors = [104, 101, 108, 108, 111]"
  "extractContent elemBye noSelectors = [98, 121, 101]"
  "extractContent elemAEdited noSelectors = [98, 121, 101]"
  by (simp_all add: extractContent_def platformContentEl_def noSelectors_def
        contentSelectors_def querySelector_def getCleanText_def elemA_def elemB_def elemC_def
        elemBye_def elemAEdited_def plainElement_def trim_def isWhiteSpace_def)

lemma small_first:
  "filter (\<lambda>e. \<not> blank (extractContent e noSelectors))
     (firstOccurrences fingerprint (concat (shownPasses 5 smallPage)))
   = [elemA, elemC, elemBye]"
  by (simp add: smallPage_shown firstOccurrences.simps(2) small_fingerprints small_contents
        blank_def trim_def isWhiteSpace_def)

lemma echo_keys:
  "contentKey noSelectors elemA = [53, 101, 57, 49, 56, 100, 50]"
  "contentKey noSelectors elemAEdited = [49, 55, 101, 101, 101]"
  "contentKey noSelectors elemC = [53, 101, 57, 49, 56, 100, 50]"
  by (simp_all add: contentKey_def small_contents hashString_def trim_def slice0_def
      isWhiteSpace_def toInt32_def toStringRadix_def digitsOf.simps digitChar_def)

lemma echoPage_run:
  "map_option (map_sum id finalMessages) (captureFullHistory 5 noSelectors echoPage)
     = Some (Inr [helloMessage\<lparr>rawHtml := None\<rparr>])"
  by code_simp

text \<open>
  C1 says that the output holds exactly one message per distinct fingerprint or content
  hash. On a page that shows three elements with non-blank text, the fingerprints
  \<open>id_a\<close>, \<open>id_a\<close>, \<open>id_c\<close> and the content hashes of \<open>"hello"\<close>, \<open>"bye"\<close>, \<open>"hello"\<close>,
  the output is the single message of the first element: the second element is skipped
  for its fingerprint, so the content hash of \<open>"bye"\<close> has no message, and the third is
  dropped for its content hash, so the fingerprint \<open>id_c\<close> has no message.
\<close>

theorem echoPage_one_message_counterexample:
  "map fingerprint (initiallyVisible echoPage)
     = [[105, 100, 95, 97], [105, 100, 95, 97], [105, 100, 95, 99]]
   \<and> map (contentKey noSelectors) (initiallyVisible echoPage)
       = [[53, 101, 57, 49, 56, 100, 50], [49, 55, 101, 101, 101],
          [53, 101, 57, 49, 56, 100, 50]]
   \<and> map_option (map_sum id finalMessages) (captureFullHistory 5 noSelectors echoPage)
       = Some (Inr [helloMessage\<lparr>rawHtml := None\<rparr>])"
  using echoPage_run by (simp add: echoPage_def small_fingerprints echo_keys)

text \<open>
  C1, amended. Whatever passes the page makes the capture perform, when
  \<open>captureFullHistory\<close> returns: the accumulator holds exactly the messages of the
  first-shown element of each distinct fingerprint among all elements shown to the
  passes, in that order, leaving out those whose first observation extracted blank
  content (later elements with a fingerprint already in the seen-set are skipped); the
  seen-set holds the fingerprints of all elements shown; and the output is the
  renumbering of the first accumulated message of each distinct content hash (later
  messages with a content hash already emitted are dropped). So the output has at most
  one message per fingerprint and exactly one per content hash of the accumulator.
\<close>

theorem captureFullHistory_keeps_first_per_key:
  assumes "captureFullHistory fuel p pg = Some (Inr r)"
  shows "capturedMessages (finalSession r)
           = capturedFrom p
               (filter (\<lambda>e. \<not> blank (extractContent e p))
                  (firstOccurrences fingerprint (concat (shownPasses fuel pg))))
         \<and> seenMessageHashes (finalSession r) = fingerprint ` set (concat (shownPasses fuel pg))
         \<and> distinct (map fingerprint (firstOccurrences fingerprint (concat (shownPasses fuel pg))))
         \<and> finalMessages r
             = renumber (firstOccurrences contentHash (capturedMessages (finalSession r)))
         \<and> distinct (map contentHash (finalMessages r))
         \<and> contentHash ` set (finalMessages r)
             = contentHash ` set (capturedMessages (finalSession r))"
proof -
  let ?shown = "concat (shownPasses fuel pg)"
  have same: "sameMessages (finalSession r) (capturePasses p (shownPasses fuel pg) freshSession)"
    using assms by (rule captureFullHistory_shown)
  have fresh: "capturedMessages freshSession = capturedFrom p []"
    by (simp add: freshSession_def capturedFrom_def)
  have cap: "capturedMessages (finalSession r)
           = capturedFrom p
               (filter (\<lambda>e. \<not> blank (extractContent e p))
                  (firstOccurrences fingerprint ?shown))"
    and seen: "seenMessageHashes (finalSession r) = fingerprint ` set ?shown"
    using same capturePasses_first_occurrences [OF fresh, of "shownPasses fuel pg"]
    by (simp_all add: sameMessages_def freshSession_def)
  from captureFullHistory_Inr [OF assms] obtain es where
    f: "finalMessages r = processMessages (finalSession r)"
    and a: "accumulated p (finalSession r) es" by blast
  have nb: "filter (\<lambda>m. contentHash m \<notin> {} \<and> \<not> blank (content m))
              (capturedMessages (finalSession r)) = capturedMessages (finalSession r)"
    using a by (auto simp: accumulated_def list_all_iff capturedFrom_def extractMessage_def
                           in_set_enumerate_eq filter_id_conv)
  have fin: "finalMessages r
               = renumber (firstOccurrences contentHash (capturedMessages (finalSession r)))"
    using f processMessages_accumulated [OF a]
    by (simp only: uniqueLoop_first_occurrences nb)
  have d: "distinct (map contentHash (finalMessages r))"
    by (simp only: fin contentHash_renumber firstOccurrences_distinct)
  have "set (map contentHash (finalMessages r))
          = set (map contentHash (capturedMessages (finalSession r)))"
    by (simp only: fin contentHash_renumber set_map firstOccurrences_keys)
  then have h: "contentHash ` set (finalMessages r)
             = contentHash ` set (capturedMessages (finalSession r))"
    by simp
  from cap seen fin d h show ?thesis
    by (simp only: firstOccurrences_distinct simp_thms)
qed

theorem captureFullHistory_keeps_first_per_key_witness:
  "captureFullHistory 5 noSelectors smallPage = Some (Inr smallResult)
   \<and> concat (shownPasses 5 smallPage)
       = [elemA, elemB, elemB, elemC, elemC, elemBye, elemC, elemBye, elemA, elemBye]
   \<and> capturedMessages (finalSession smallResult)
       = capturedFrom noSelectors [elemA, elemC, elemBye]
   \<and> map content (finalMessages smallResult) = [[104, 101, 108, 108, 111], [98, 121, 101]]"
proof -
  have c: "capturedMessages (finalSession smallResult)
             = capturedFrom noSelectors [elemA, elemC, elemBye]"
    using captureFullHistory_keeps_first_per_key [OF smallPage_run, THEN conjunct1]
    by (simp only: small_first)
  have m: "map content (finalMessages smallResult) = [[104, 101, 108, 108, 111], [98, 121, 101]]"
    by (simp add: smallResult_def helloMessage_def byeMessage_def)
  from smallPage_run smallPage_shown c m show ?thesis by (intro conjI)
qed

end
